theory Spec2Isabelle
  imports Main "HOL-Library.Word"
begin

unbundle bit_operations_syntax

section \<open>Machine arithmetic of the allocator\<close>

text \<open>
  \<^verbatim>\<open>size_t\<close> is an unsigned 64-bit integer.  Values of that type are modelled as
  natural numbers below \<open>2 ^ 64\<close>, and every addition, subtraction and multiplication
  the source performs on them is written with its wrap-around.
\<close>

definition sz_add :: "nat \<Rightarrow> nat \<Rightarrow> nat" where
  "sz_add a b = (a + b) mod 2 ^ 64"

definition sz_sub :: "nat \<Rightarrow> nat \<Rightarrow> nat" where
  "sz_sub a b = (a + 2 ^ 64 - b) mod 2 ^ 64"

definition sz_mul :: "nat \<Rightarrow> nat \<Rightarrow> nat" where
  "sz_mul a b = (a * b) mod 2 ^ 64"

text \<open>\<^verbatim>\<open>const size_t kByte = 8;\<close>\<close>

definition kByte :: nat where
  "kByte = 8"

text \<open>
  The bitmap is a \<^verbatim>\<open>char\<close> array.  Whether \<^verbatim>\<open>char\<close> is signed is a property of
  the platform, so it is a parameter \<open>sg\<close> of the model (\<open>True\<close> for a signed
  \<^verbatim>\<open>char\<close>).  In the expression \<^verbatim>\<open>(used_blocks[k] >> order) % 2\<close> the byte is
  promoted to \<^verbatim>\<open>int\<close>, shifted arithmetically, and the remainder truncates towards
  zero, so it is one of \<open>-1\<close>, \<open>0\<close> and \<open>1\<close>.
\<close>

definition c_rem :: "int \<Rightarrow> int \<Rightarrow> int" where
  "c_rem a b = sgn a * (\<bar>a\<bar> mod \<bar>b\<bar>)"

definition char_promote :: "bool \<Rightarrow> 8 word \<Rightarrow> int" where
  "char_promote sg c = (if sg then sint c else uint c)"

definition shift_rem2 :: "bool \<Rightarrow> 8 word \<Rightarrow> nat \<Rightarrow> int" where
  "shift_rem2 sg c order = c_rem (drop_bit order (char_promote sg c)) 2"

section \<open>The pool\<close>

datatype error = Bad_Alloc | Assertion_Failed | Undefined_Behaviour

text \<open>
  The fields of \<^verbatim>\<open>class Pool\<close>.  \<open>mem_pointer\<close> is the address of the arena
  (\<open>0\<close> is the null pointer); \<open>used_blocks\<close> is the content of the bitmap buffer.
  The links \<^verbatim>\<open>next_pool\<close> and \<^verbatim>\<open>prev_pool\<close> are the order of the list that models a
  chain.
\<close>

record pool =
  block_size :: nat
  block_counter :: nat
  blocks_free_num :: nat
  free_block :: nat
  mem_pointer :: nat
  used_blocks :: "8 word list"

text \<open>
  The constructor.  \<open>mem\<close> is what \<^verbatim>\<open>malloc\<close> returned for the arena; the constructor
  asserts that it is not null.  The bitmap has \<^verbatim>\<open>1 + ((block_counter - 1) / kByte)\<close>
  bytes, all zero; its allocation is taken to succeed.  The content of the arena is not
  part of the model.
\<close>

definition Pool :: "nat \<Rightarrow> nat \<Rightarrow> nat \<Rightarrow> error + pool" where
  "Pool bsize bcount mem =
     (if mem = 0 then Inl Assertion_Failed
      else Inr \<lparr>block_size = bsize,
                block_counter = bcount,
                blocks_free_num = bcount,
                free_block = 0,
                mem_pointer = mem,
                used_blocks = replicate (sz_add 1 (sz_sub bcount 1 div kByte)) 0\<rparr>)"

text \<open>\<^verbatim>\<open>Pool::find\<close>: the pointer lies in the arena.\<close>

definition Pool_find :: "pool \<Rightarrow> nat \<Rightarrow> bool" where
  "Pool_find p pointer \<longleftrightarrow>
     mem_pointer p \<le> pointer \<and>
     pointer < mem_pointer p + sz_mul (block_size p) (block_counter p)"

text \<open>
  The inner \<^verbatim>\<open>while\<close> loop of \<^verbatim>\<open>Pool::get_blocks\<close>, with its variables \<open>i\<close>,
  \<open>ok\<close> and \<open>right\<close>.  Reading the bitmap outside its buffer is undefined behaviour.
  It returns the three variables as the loop leaves them.
\<close>

partial_function (option) get_blocks_while ::
  "bool \<Rightarrow> 8 word list \<Rightarrow> nat \<Rightarrow> nat \<Rightarrow> nat \<Rightarrow> bool \<Rightarrow> nat \<Rightarrow> (error + nat \<times> bool \<times> nat) option"
where
  "get_blocks_while sg ub n left i ok right =
     (if sz_add (sz_sub right left) 1 \<le> n \<and> ok then
        (if right div kByte < length ub then
           (if shift_rem2 sg (ub ! (right div kByte)) (kByte - 1 - right mod kByte) \<noteq> 0
            then get_blocks_while sg ub n left right False (sz_add right 1)
            else get_blocks_while sg ub n left i ok (sz_add right 1))
         else Some (Inl Undefined_Behaviour))
      else Some (Inr (i, ok, right)))"

text \<open>
  The \<^verbatim>\<open>for\<close> loop of \<^verbatim>\<open>Pool::get_blocks\<close>, from the index \<open>i\<close> on.  \<open>ok\<close> is
  true whenever an iteration starts.
\<close>

partial_function (option) get_blocks_for ::
  "bool \<Rightarrow> pool \<Rightarrow> nat \<Rightarrow> nat \<Rightarrow> (error + pool \<times> nat) option"
where
  "get_blocks_for sg p n i =
     (if sz_add i n \<le> block_counter p then
        (case get_blocks_while sg (used_blocks p) n i i True i of
           None \<Rightarrow> None
         | Some (Inl e) \<Rightarrow> Some (Inl e)
         | Some (Inr (i', ok, right)) \<Rightarrow>
             (if sz_add (sz_sub (sz_sub right 1) i) 1 = n \<and> ok then
                Some (Inr (if i' = free_block p then p\<lparr>free_block := sz_add i n\<rparr> else p, i))
              else get_blocks_for sg p n (sz_add i' 1)))
      else Some (Inr (p, block_counter p)))"

definition get_blocks :: "bool \<Rightarrow> pool \<Rightarrow> nat \<Rightarrow> (error + pool \<times> nat) option" where
  "get_blocks sg p n = get_blocks_for sg p n (free_block p)"

text \<open>
  \<^verbatim>\<open>Pool::use_blocks\<close>: the loop from \<open>i\<close> on.  The bound \<^verbatim>\<open>idx_ + n\<close> is computed
  at every test, as in the source.
\<close>

function use_blocks_for :: "bool \<Rightarrow> pool \<Rightarrow> nat \<Rightarrow> nat \<Rightarrow> nat \<Rightarrow> error + pool" where
  "use_blocks_for sg p idx n i =
     (if i < sz_add idx n then
        (if i div kByte < length (used_blocks p) then
           (if shift_rem2 sg (used_blocks p ! (i div kByte)) (kByte - 1 - i mod kByte) = 1
            then Inl Assertion_Failed
            else use_blocks_for sg
                   (p\<lparr>used_blocks := (used_blocks p)
                         [i div kByte := (used_blocks p ! (i div kByte)) OR push_bit (kByte - 1 - i mod kByte) 1],
                      blocks_free_num := sz_sub (blocks_free_num p) 1\<rparr>)
                   idx n (sz_add i 1))
         else Inl Undefined_Behaviour)
      else Inr p)"
  by pat_completeness auto
termination
proof (relation "measure (\<lambda>(sg, p, idx, n, i). 2 ^ 64 - i)")
  show "wf (measure (\<lambda>(sg, p, idx, n, i). 2 ^ 64 - i))"
    by simp
next
  fix sg :: bool and p :: pool and idx n i :: nat
  assume "i < sz_add idx n"
  moreover have "sz_add idx n < 2 ^ 64"
    by (simp add: sz_add_def)
  ultimately have "i + 1 < 2 ^ 64"
    by linarith
  then show "((sg,
               p\<lparr>used_blocks := (used_blocks p)
                    [i div kByte := (used_blocks p ! (i div kByte)) OR push_bit (kByte - 1 - i mod kByte) 1],
                 blocks_free_num := sz_sub (blocks_free_num p) 1\<rparr>,
               idx, n, sz_add i 1),
              (sg, p, idx, n, i)) \<in> measure (\<lambda>(sg, p, idx, n, i). 2 ^ 64 - i)"
    by (simp add: sz_add_def)
qed

declare use_blocks_for.simps [simp del]

definition use_blocks :: "bool \<Rightarrow> pool \<Rightarrow> nat \<Rightarrow> nat \<Rightarrow> error + pool" where
  "use_blocks sg p idx n = use_blocks_for sg p idx n idx"

text \<open>\<^verbatim>\<open>Pool::free_blocks\<close>: the loop, then the hint and the counter.\<close>

function free_blocks_for :: "pool \<Rightarrow> nat \<Rightarrow> nat \<Rightarrow> nat \<Rightarrow> error + pool" where
  "free_blocks_for p idx n i =
     (if i < sz_add idx n then
        (if i div kByte < length (used_blocks p) then
           free_blocks_for
             (p\<lparr>used_blocks := (used_blocks p)
                   [i div kByte := (used_blocks p ! (i div kByte)) AND (push_bit (kByte - 1 - i mod kByte) 1 XOR 255)]\<rparr>)
             idx n (sz_add i 1)
         else Inl Undefined_Behaviour)
      else Inr p)"
  by pat_completeness auto
termination
proof (relation "measure (\<lambda>(p, idx, n, i). 2 ^ 64 - i)")
  show "wf (measure (\<lambda>(p, idx, n, i). 2 ^ 64 - i))"
    by simp
next
  fix p :: pool and idx n i :: nat
  assume "i < sz_add idx n"
  moreover have "sz_add idx n < 2 ^ 64"
    by (simp add: sz_add_def)
  ultimately have "i + 1 < 2 ^ 64"
    by linarith
  then show "((p\<lparr>used_blocks := (used_blocks p)
                    [i div kByte := (used_blocks p ! (i div kByte)) AND (push_bit (kByte - 1 - i mod kByte) 1 XOR 255)]\<rparr>,
               idx, n, sz_add i 1),
              (p, idx, n, i)) \<in> measure (\<lambda>(p, idx, n, i). 2 ^ 64 - i)"
    by (simp add: sz_add_def)
qed

declare free_blocks_for.simps [simp del]

definition free_blocks :: "pool \<Rightarrow> nat \<Rightarrow> nat \<Rightarrow> error + pool" where
  "free_blocks p idx n =
     (case free_blocks_for p idx n idx of
        Inl e \<Rightarrow> Inl e
      | Inr p' \<Rightarrow>
          Inr (p'\<lparr>free_block := (if idx < free_block p' then idx else free_block p'),
                  blocks_free_num := sz_add (blocks_free_num p') n\<rparr>))"

text \<open>
  \<^verbatim>\<open>1 + ((bytes_ - 1) / block_size)\<close>, in \<^verbatim>\<open>size_t\<close>.
\<close>

definition number_of_blocks :: "pool \<Rightarrow> nat \<Rightarrow> nat" where
  "number_of_blocks p bytes = sz_add 1 (sz_sub bytes 1 div block_size p)"

text \<open>
  \<^verbatim>\<open>Pool::allocate\<close> returns the pool as it leaves it and the pointer
  (\<open>0\<close> for \<^verbatim>\<open>nullptr\<close>).  A division by a zero block size is undefined behaviour.
\<close>

definition Pool_allocate :: "bool \<Rightarrow> pool \<Rightarrow> nat \<Rightarrow> (error + pool \<times> nat) option" where
  "Pool_allocate sg p bytes =
     (if block_size p = 0 then Some (Inl Undefined_Behaviour)
      else
        (case get_blocks sg p (number_of_blocks p bytes) of
           None \<Rightarrow> None
         | Some (Inl e) \<Rightarrow> Some (Inl e)
         | Some (Inr (p', idx)) \<Rightarrow>
             (if idx \<ge> block_counter p' then Some (Inr (p', 0))
              else
                (case use_blocks sg p' idx (number_of_blocks p bytes) of
                   Inl e \<Rightarrow> Some (Inl e)
                 | Inr p'' \<Rightarrow> Some (Inr (p'', mem_pointer p'' + sz_mul idx (block_size p'')))))))"

text \<open>
  \<^verbatim>\<open>Pool::deallocate\<close>.  \<^verbatim>\<open>std::distance\<close> is converted to \<^verbatim>\<open>size_t\<close>, so it
  wraps for a pointer below the arena.
\<close>

definition Pool_deallocate :: "pool \<Rightarrow> nat \<Rightarrow> nat \<Rightarrow> error + pool" where
  "Pool_deallocate p pointer bytes =
     (if pointer = 0 then Inl Bad_Alloc
      else if block_size p = 0 then Inl Undefined_Behaviour
      else free_blocks p (sz_sub pointer (mem_pointer p) div block_size p) (number_of_blocks p bytes))"

section \<open>The chain of pools\<close>

text \<open>
  A \<^verbatim>\<open>MemPoolList\<close> is the list of its pools in link order, \<^verbatim>\<open>head\<close> first; the
  constructor links one pool per configuration pair, in the order of the pairs.
  \<^verbatim>\<open>MemPoolList::allocate\<close> either returns the chain and a pointer, or fails with an
  error and the chain as the error leaves it.
\<close>

fun MemPoolList_allocate ::
  "bool \<Rightarrow> pool list \<Rightarrow> nat \<Rightarrow> (error \<times> pool list + pool list \<times> nat) option"
where
  "MemPoolList_allocate sg [] bytes = Some (Inl (Bad_Alloc, []))"
| "MemPoolList_allocate sg (pool # rest) bytes =
     (if sz_mul (blocks_free_num pool) (block_size pool) \<ge> bytes \<and> blocks_free_num pool \<noteq> 0 then
        (case Pool_allocate sg pool bytes of
           None \<Rightarrow> None
         | Some (Inl e) \<Rightarrow> Some (Inl (e, pool # rest))
         | Some (Inr (pool', pointer)) \<Rightarrow>
             (if pointer \<noteq> 0 then Some (Inr (pool' # rest, pointer))
              else
                (case MemPoolList_allocate sg rest bytes of
                   None \<Rightarrow> None
                 | Some (Inl (e, rest')) \<Rightarrow> Some (Inl (e, pool' # rest'))
                 | Some (Inr (rest', pointer')) \<Rightarrow> Some (Inr (pool' # rest', pointer')))))
      else
        (case MemPoolList_allocate sg rest bytes of
           None \<Rightarrow> None
         | Some (Inl (e, rest')) \<Rightarrow> Some (Inl (e, pool # rest'))
         | Some (Inr (rest', pointer')) \<Rightarrow> Some (Inr (pool # rest', pointer'))))"

fun MemPoolList_deallocate :: "pool list \<Rightarrow> nat \<Rightarrow> nat \<Rightarrow> error + pool list" where
  "MemPoolList_deallocate [] pointer bytes = Inr []"
| "MemPoolList_deallocate (pool # rest) pointer bytes =
     (if Pool_find pool pointer then
        (case Pool_deallocate pool pointer bytes of
           Inl e \<Rightarrow> Inl e
         | Inr pool' \<Rightarrow> Inr (pool' # rest))
      else
        (case MemPoolList_deallocate rest pointer bytes of
           Inl e \<Rightarrow> Inl e
         | Inr rest' \<Rightarrow> Inr (pool # rest')))"

section \<open>Notions of the specification\<close>

text \<open>
  Block \<open>i\<close> is occupied when its bit of the bitmap is set: bit \<open>7 - i mod 8\<close> of
  byte \<open>i div 8\<close>.
\<close>

definition block_in_use :: "8 word list \<Rightarrow> nat \<Rightarrow> bool" where
  "block_in_use ub i \<longleftrightarrow> bit (ub ! (i div kByte)) (kByte - 1 - i mod kByte)"

text \<open>The blocks \<open>j, ..., j + n - 1\<close> are all free.\<close>

definition run_free :: "8 word list \<Rightarrow> nat \<Rightarrow> nat \<Rightarrow> bool" where
  "run_free ub j n \<longleftrightarrow> (\<forall>k\<in>{j..<j + n}. \<not> block_in_use ub k)"

text \<open>The number of zero bits among the first \<open>block_counter\<close> bits of the bitmap.\<close>

definition zero_bits :: "pool \<Rightarrow> nat" where
  "zero_bits p = length (filter (\<lambda>i. \<not> block_in_use (used_blocks p) i) [0..<block_counter p])"

text \<open>
  What a configuration pair and the arena that \<^verbatim>\<open>malloc\<close> returned for it satisfy: both
  numbers are positive, the arena is an object of \<open>bsize * bcount\<close> bytes, so that
  product is at most \<^verbatim>\<open>PTRDIFF_MAX\<close>, and the arena lies in the address space.
\<close>

definition config_ok :: "nat \<Rightarrow> nat \<Rightarrow> nat \<Rightarrow> bool" where
  "config_ok bsize bcount mem \<longleftrightarrow>
     0 < bsize \<and> 0 < bcount \<and> bsize * bcount < 2 ^ 63 \<and> 0 < mem \<and> mem + bsize * bcount \<le> 2 ^ 64"

text \<open>
  Valid use of one pool.  The client keeps the list of its live allocations, each the
  pointer it received and the byte count it asked for.  A call is valid when it is an
  allocation that returns (a pointer or the empty result), or the release of a live
  allocation with its own byte count; a valid call gives the next state.
\<close>

datatype call = Allocate nat | Deallocate nat nat

fun valid_call :: "bool \<Rightarrow> pool \<times> (nat \<times> nat) list \<Rightarrow> call \<Rightarrow> (pool \<times> (nat \<times> nat) list) option" where
  "valid_call sg (p, live) (Allocate bytes) =
     (if bytes < 2 ^ 64 then
        (case Pool_allocate sg p bytes of
           Some (Inr (p', pointer)) \<Rightarrow> Some (p', if pointer = 0 then live else (pointer, bytes) # live)
         | _ \<Rightarrow> None)
      else None)"
| "valid_call sg (p, live) (Deallocate pointer bytes) =
     (if (pointer, bytes) \<in> set live then
        (case Pool_deallocate p pointer bytes of
           Inr p' \<Rightarrow> Some (p', remove1 (pointer, bytes) live)
         | Inl e \<Rightarrow> None)
      else None)"

fun valid_use :: "bool \<Rightarrow> pool \<times> (nat \<times> nat) list \<Rightarrow> call list \<Rightarrow> (pool \<times> (nat \<times> nat) list) option" where
  "valid_use sg s [] = Some s"
| "valid_use sg s (c # cs) =
     (case valid_call sg s c of None \<Rightarrow> None | Some s' \<Rightarrow> valid_use sg s' cs)"

text \<open>
  The state \<open>s\<close> (a pool and the live allocations of its client) is reached from the
  construction of the pool by the valid calls \<open>calls\<close>.
\<close>

definition reachable :: "bool \<Rightarrow> nat \<Rightarrow> nat \<Rightarrow> nat \<Rightarrow> call list \<Rightarrow> pool \<times> (nat \<times> nat) list \<Rightarrow> bool" where
  "reachable sg bsize bcount mem calls s \<longleftrightarrow>
     config_ok bsize bcount mem \<and>
     (case Pool bsize bcount mem of
        Inl e \<Rightarrow> False
      | Inr p0 \<Rightarrow> valid_use sg (p0, []) calls = Some s)"

definition pool_reachable :: "bool \<Rightarrow> pool \<Rightarrow> bool" where
  "pool_reachable sg p \<longleftrightarrow> (\<exists>bsize bcount mem calls live. reachable sg bsize bcount mem calls (p, live))"

text \<open>
  The invariant of a pool: its configuration, the size of the bitmap, the counter and
  the hint.
\<close>

definition pool_wf :: "pool \<Rightarrow> bool" where
  "pool_wf p \<longleftrightarrow>
     config_ok (block_size p) (block_counter p) (mem_pointer p) \<and>
     length (used_blocks p) = 1 + (block_counter p - 1) div 8 \<and>
     blocks_free_num p = zero_bits p \<and>
     free_block p \<le> block_counter p \<and>
     (\<forall>k<free_block p. block_in_use (used_blocks p) k)"

text \<open>
  The blocks of a live allocation, from the index that \<^verbatim>\<open>Pool::deallocate\<close> computes
  for it, and the invariant of the client's list: every live allocation lies in the
  pool with all its blocks occupied, and no two of them share a block.
\<close>

definition blocks_of :: "pool \<Rightarrow> nat \<times> nat \<Rightarrow> nat set" where
  "blocks_of p e =
     {sz_sub (fst e) (mem_pointer p) div block_size p ..<
      sz_sub (fst e) (mem_pointer p) div block_size p + number_of_blocks p (snd e)}"

definition live_entry :: "pool \<Rightarrow> nat \<times> nat \<Rightarrow> bool" where
  "live_entry p e \<longleftrightarrow>
     fst e \<noteq> 0 \<and>
     sz_sub (fst e) (mem_pointer p) div block_size p + number_of_blocks p (snd e) \<le> block_counter p \<and>
     (\<forall>k\<in>blocks_of p e. block_in_use (used_blocks p) k)"

fun disjoint_sets :: "nat set list \<Rightarrow> bool" where
  "disjoint_sets [] = True"
| "disjoint_sets (A # As) = ((\<forall>B\<in>set As. A \<inter> B = {}) \<and> disjoint_sets As)"

definition state_inv :: "pool \<times> (nat \<times> nat) list \<Rightarrow> bool" where
  "state_inv s \<longleftrightarrow>
     pool_wf (fst s) \<and> (\<forall>e\<in>set (snd s). live_entry (fst s) e) \<and>
     disjoint_sets (map (blocks_of (fst s)) (snd s))"

text \<open>
  Notions for the chain.  A pool fails a request when the chain skips it (the pre-filter
  of \<^verbatim>\<open>MemPoolList::allocate\<close> is false) or its \<^verbatim>\<open>Pool::allocate\<close> returns the
  empty result.  A request exceeds the free runs of a pool when every run of free blocks
  in the pool (blocks \<open>j, ..., j + l - 1\<close>) holds fewer bytes than the request, and
  the pool has room for it when some run of free blocks holds at least as many.
\<close>

definition pre_filter :: "pool \<Rightarrow> nat \<Rightarrow> bool" where
  "pre_filter pool bytes \<longleftrightarrow>
     sz_mul (blocks_free_num pool) (block_size pool) \<ge> bytes \<and> blocks_free_num pool \<noteq> 0"

definition request_fails :: "bool \<Rightarrow> pool \<Rightarrow> nat \<Rightarrow> bool" where
  "request_fails sg pool bytes \<longleftrightarrow>
     (if pre_filter pool bytes then
        (case Pool_allocate sg pool bytes of
           Some (Inr (pool', pointer)) \<Rightarrow> pointer = 0
         | _ \<Rightarrow> False)
      else True)"

definition exceeds_free_runs :: "pool \<Rightarrow> nat \<Rightarrow> bool" where
  "exceeds_free_runs p bytes \<longleftrightarrow>
     (\<forall>j\<in>{..block_counter p}. \<forall>l\<in>{..block_counter p}.
        j + l \<le> block_counter p \<and> run_free (used_blocks p) j l \<longrightarrow> l * block_size p < bytes)"

definition has_room :: "pool \<Rightarrow> nat \<Rightarrow> bool" where
  "has_room p bytes \<longleftrightarrow>
     (\<exists>j\<in>{..block_counter p}. \<exists>l\<in>{..block_counter p}.
        j + l \<le> block_counter p \<and> run_free (used_blocks p) j l \<and> bytes \<le> l * block_size p)"

section \<open>Specifications of the loops and operations\<close>

definition marks :: "pool \<Rightarrow> nat \<Rightarrow> nat \<Rightarrow> pool \<Rightarrow> bool" where
  "marks p a b p' \<longleftrightarrow>
     block_size p' = block_size p \<and> block_counter p' = block_counter p \<and>
     free_block p' = free_block p \<and> mem_pointer p' = mem_pointer p \<and>
     length (used_blocks p') = length (used_blocks p) \<and>
     blocks_free_num p' + (b - a) = blocks_free_num p \<and>
     (\<forall>k. block_in_use (used_blocks p') k \<longleftrightarrow> block_in_use (used_blocks p) k \<or> (a \<le> k \<and> k < b))"

definition clears :: "pool \<Rightarrow> nat \<Rightarrow> nat \<Rightarrow> pool \<Rightarrow> bool" where
  "clears p a b p' \<longleftrightarrow>
     block_size p' = block_size p \<and> block_counter p' = block_counter p \<and>
     free_block p' = free_block p \<and> mem_pointer p' = mem_pointer p \<and>
     length (used_blocks p') = length (used_blocks p) \<and>
     blocks_free_num p' = blocks_free_num p \<and>
     (\<forall>k. block_in_use (used_blocks p') k \<longleftrightarrow> block_in_use (used_blocks p) k \<and> \<not> (a \<le> k \<and> k < b))"

definition while_post :: "8 word list \<Rightarrow> nat \<Rightarrow> nat \<Rightarrow> nat \<Rightarrow> nat \<Rightarrow> error + nat \<times> bool \<times> nat \<Rightarrow> bool" where
  "while_post ub n left i right r \<longleftrightarrow>
     (case r of
        Inl e \<Rightarrow> e = Undefined_Behaviour \<and> 8 * length ub < left + n
      | Inr (i', ok', right') \<Rightarrow>
          (if ok' then
             i' = i \<and> right' = left + n \<and> left + n \<le> 8 * length ub \<and>
             (\<forall>k. right \<le> k \<and> k < left + n \<longrightarrow> \<not> block_in_use ub k)
           else
             right' = i' + 1 \<and> right \<le> i' \<and> i' < left + n \<and> i' < 8 * length ub \<and>
             block_in_use ub i' \<and> (\<forall>k. right \<le> k \<and> k < i' \<longrightarrow> \<not> block_in_use ub k)))"

definition for_post :: "pool \<Rightarrow> nat \<Rightarrow> nat \<Rightarrow> error + pool \<times> nat \<Rightarrow> bool" where
  "for_post p n i r \<longleftrightarrow>
     (case r of
        Inl e \<Rightarrow> e = Undefined_Behaviour \<and> \<not> (i \<le> block_counter p \<and> block_counter p + n < 2 ^ 64)
      | Inr (p', idx) \<Rightarrow>
          (i \<le> idx \<and> idx + n \<le> block_counter p \<and> run_free (used_blocks p) idx n \<and>
           (\<forall>j. i \<le> j \<and> j < idx \<longrightarrow> \<not> run_free (used_blocks p) j n) \<and>
           p' = (if idx = free_block p then p\<lparr>free_block := idx + n\<rparr> else p))
          \<or>
          (idx = block_counter p \<and> p' = p \<and>
           (\<forall>j. i \<le> j \<and> j + n \<le> block_counter p \<longrightarrow> \<not> run_free (used_blocks p) j n)))"

definition allocated :: "pool \<Rightarrow> nat \<Rightarrow> nat \<Rightarrow> pool \<Rightarrow> bool" where
  "allocated p n idx p' \<longleftrightarrow>
     block_size p' = block_size p \<and> block_counter p' = block_counter p \<and>
     mem_pointer p' = mem_pointer p \<and> length (used_blocks p') = length (used_blocks p) \<and>
     free_block p' = (if idx = free_block p then idx + n else free_block p) \<and>
     blocks_free_num p' + n = blocks_free_num p \<and>
     (\<forall>k. block_in_use (used_blocks p') k \<longleftrightarrow> block_in_use (used_blocks p) k \<or> (idx \<le> k \<and> k < idx + n))"

definition released :: "pool \<Rightarrow> nat \<Rightarrow> nat \<Rightarrow> pool \<Rightarrow> bool" where
  "released p n idx p' \<longleftrightarrow>
     block_size p' = block_size p \<and> block_counter p' = block_counter p \<and>
     mem_pointer p' = mem_pointer p \<and> length (used_blocks p') = length (used_blocks p) \<and>
     free_block p' = (if idx < free_block p then idx else free_block p) \<and>
     blocks_free_num p' = sz_add (blocks_free_num p) n \<and>
     (\<forall>k. block_in_use (used_blocks p') k \<longleftrightarrow> block_in_use (used_blocks p) k \<and> \<not> (idx \<le> k \<and> k < idx + n))"

definition alloc_post :: "pool \<Rightarrow> nat \<Rightarrow> error + pool \<times> nat \<Rightarrow> bool" where
  "alloc_post p n r \<longleftrightarrow>
     (case r of
        Inl e \<Rightarrow> e = Undefined_Behaviour \<and> 2 ^ 64 \<le> block_counter p + n
      | Inr (p', pointer) \<Rightarrow>
          (\<exists>idx. pointer = mem_pointer p + idx * block_size p \<and> pointer \<noteq> 0 \<and>
                 free_block p \<le> idx \<and> idx < block_counter p \<and> idx + n \<le> block_counter p \<and>
                 run_free (used_blocks p) idx n \<and>
                 (\<forall>j. free_block p \<le> j \<and> j < idx \<longrightarrow> \<not> run_free (used_blocks p) j n) \<and>
                 allocated p n idx p')
          \<or>
          (pointer = 0 \<and> p' = p \<and>
           (\<forall>j. free_block p \<le> j \<and> j < block_counter p \<and> j + n \<le> block_counter p
                \<longrightarrow> \<not> run_free (used_blocks p) j n)))"

section \<open>Lemmas\<close>

lemma sz_add_lt: "sz_add a b < 2 ^ 64"
  by (simp add: sz_add_def)

subsection \<open>Arithmetic and bits\<close>

lemma sz_add_eq: "a + b < 2 ^ 64 \<Longrightarrow> sz_add a b = a + b"
  by (simp add: sz_add_def)

lemma sz_sub_eq: "b \<le> a \<Longrightarrow> a < 2 ^ 64 \<Longrightarrow> sz_sub a b = a - b"
proof -
  assume a: "b \<le> a" "a < 2 ^ 64"
  then have "a + 2 ^ 64 - b = (a - b) + 2 ^ 64"
    by simp
  then have "sz_sub a b = (a - b) mod 2 ^ 64"
    unfolding sz_sub_def by (metis mod_add_self2)
  with a show ?thesis
    by simp
qed

lemma sz_mul_eq: "a * b < 2 ^ 64 \<Longrightarrow> sz_mul a b = a * b"
  by (simp add: sz_mul_def)

lemma c_rem_2_nonzero: "c_rem x 2 \<noteq> 0 \<longleftrightarrow> odd x"
proof -
  have "\<bar>x\<bar> mod 2 \<noteq> 0 \<longleftrightarrow> odd x"
    by (simp add: even_iff_mod_2_eq_zero [symmetric])
  moreover have "odd x \<Longrightarrow> sgn x \<noteq> 0"
    by (cases "x = 0") (auto simp add: sgn_if)
  ultimately show ?thesis
    by (auto simp add: c_rem_def)
qed

lemma bit_char_promote: "order < 8 \<Longrightarrow> bit (char_promote sg c) order = bit c order"
  by (auto simp add: char_promote_def bit_sint_iff bit_uint_iff)

lemma shift_rem2_nonzero: "order < 8 \<Longrightarrow> shift_rem2 sg c order \<noteq> 0 \<longleftrightarrow> bit c order"
  using bit_char_promote [of order sg c]
  by (simp add: shift_rem2_def c_rem_2_nonzero bit_iff_odd_drop_bit)

lemma test_in_use: "(shift_rem2 sg (ub ! (i div kByte)) (kByte - 1 - i mod kByte) \<noteq> 0) = block_in_use ub i"
proof -
  have "kByte - 1 - i mod kByte < 8"
    by (simp add: kByte_def)
  then show ?thesis
    unfolding block_in_use_def by (rule shift_rem2_nonzero)
qed

lemma test_assert: "\<not> block_in_use ub i \<Longrightarrow> shift_rem2 sg (ub ! (i div kByte)) (kByte - 1 - i mod kByte) \<noteq> 1"
  using test_in_use [of sg ub i] by auto

lemma same_block: "i div kByte = k div kByte \<Longrightarrow> kByte - 1 - i mod kByte = kByte - 1 - k mod kByte \<Longrightarrow> i = k"
proof -
  assume a: "i div kByte = k div kByte" and b: "kByte - 1 - i mod kByte = kByte - 1 - k mod kByte"
  have "i mod kByte < kByte" "k mod kByte < kByte" by (simp_all add: kByte_def)
  with b have "i mod kByte = k mod kByte" by linarith
  with a show "i = k" by (metis div_mult_mod_eq)
qed

lemma bit_set_mask: "m < 8 \<Longrightarrow> bit ((c :: 8 word) OR push_bit n 1) m \<longleftrightarrow> bit c m \<or> m = n"
  by (auto simp add: bit_or_iff bit_push_bit_iff bit_1_iff bit_exp_iff)

lemma bit_255: "bit (255 :: 8 word) m \<longleftrightarrow> m < 8"
proof -
  have "bit (mask 8 :: 8 word) m \<longleftrightarrow> m < 8"
    by (simp add: bit_mask_iff)
  moreover have "(mask 8 :: 8 word) = 255"
    by (simp add: mask_eq_exp_minus_1)
  ultimately show ?thesis
    by simp
qed

lemma bit_clear_mask: "m < 8 \<Longrightarrow> bit ((c :: 8 word) AND (push_bit n 1 XOR 255)) m \<longleftrightarrow> bit c m \<and> m \<noteq> n"
  using bit_255 [of m] by (auto simp add: bit_and_iff bit_xor_iff bit_push_bit_iff bit_1_iff bit_exp_iff)

lemma in_use_set:
  assumes "i div kByte < length ub"
  shows "block_in_use (ub[i div kByte := (ub ! (i div kByte)) OR push_bit (kByte - 1 - i mod kByte) 1]) k
           \<longleftrightarrow> block_in_use ub k \<or> k = i"
proof (cases "k div kByte = i div kByte")
  case True
  have lt: "kByte - 1 - k mod kByte < 8" by (simp add: kByte_def)
  have "block_in_use (ub[i div kByte := (ub ! (i div kByte)) OR push_bit (kByte - 1 - i mod kByte) 1]) k
      \<longleftrightarrow> bit ((ub ! (i div kByte)) OR push_bit (kByte - 1 - i mod kByte) 1) (kByte - 1 - k mod kByte)"
    unfolding block_in_use_def using True assms by simp
  also have "\<dots> \<longleftrightarrow> bit (ub ! (i div kByte)) (kByte - 1 - k mod kByte) \<or> kByte - 1 - k mod kByte = kByte - 1 - i mod kByte"
    by (rule bit_set_mask [OF lt])
  also have "\<dots> \<longleftrightarrow> block_in_use ub k \<or> k = i"
    unfolding block_in_use_def using True same_block [of i k] by auto
  finally show ?thesis .
next
  case False
  then show ?thesis
    by (auto simp add: block_in_use_def)
qed

lemma in_use_clear:
  assumes "i div kByte < length ub"
  shows "block_in_use (ub[i div kByte := (ub ! (i div kByte)) AND (push_bit (kByte - 1 - i mod kByte) 1 XOR 255)]) k
           \<longleftrightarrow> block_in_use ub k \<and> k \<noteq> i"
proof (cases "k div kByte = i div kByte")
  case True
  have lt: "kByte - 1 - k mod kByte < 8" by (simp add: kByte_def)
  have "block_in_use (ub[i div kByte := (ub ! (i div kByte)) AND (push_bit (kByte - 1 - i mod kByte) 1 XOR 255)]) k
      \<longleftrightarrow> bit ((ub ! (i div kByte)) AND (push_bit (kByte - 1 - i mod kByte) 1 XOR 255)) (kByte - 1 - k mod kByte)"
    unfolding block_in_use_def using True assms by simp
  also have "\<dots> \<longleftrightarrow> bit (ub ! (i div kByte)) (kByte - 1 - k mod kByte) \<and> kByte - 1 - k mod kByte \<noteq> kByte - 1 - i mod kByte"
    by (rule bit_clear_mask [OF lt])
  also have "\<dots> \<longleftrightarrow> block_in_use ub k \<and> k \<noteq> i"
    unfolding block_in_use_def using True same_block [of i k] by auto
  finally show ?thesis .
next
  case False
  then show ?thesis
    by (auto simp add: block_in_use_def)
qed

subsection \<open>The marking and clearing loops\<close>

lemma byte_in_range: "i < 8 * length ub \<Longrightarrow> i div kByte < length ub"
  by (simp add: kByte_def less_mult_imp_div_less mult.commute)

lemma byte_out_of_range: "\<not> i div kByte < length ub \<Longrightarrow> 8 * length ub \<le> i"
  using byte_in_range [of i ub] by linarith

lemma use_blocks_for_spec:
  assumes "idx + n < 2 ^ 64" and "idx + n \<le> 8 * length (used_blocks p)" and "i \<le> idx + n"
    and "\<forall>k. i \<le> k \<and> k < idx + n \<longrightarrow> \<not> block_in_use (used_blocks p) k"
    and "idx + n - i \<le> blocks_free_num p" and "blocks_free_num p < 2 ^ 64"
  shows "\<exists>p'. use_blocks_for sg p idx n i = Inr p' \<and> marks p i (idx + n) p'"
  using assms
proof (induction "idx + n - i" arbitrary: p i)
  case 0
  then have "\<not> i < sz_add idx n"
    by (simp add: sz_add_eq)
  then have "use_blocks_for sg p idx n i = Inr p"
    by (subst use_blocks_for.simps) simp
  moreover from 0 have "marks p i (idx + n) p"
    by (auto simp add: marks_def)
  ultimately show ?case
    by blast
next
  case (Suc m)
  let ?q = "p\<lparr>used_blocks := (used_blocks p)
                 [i div kByte := (used_blocks p ! (i div kByte)) OR push_bit (kByte - 1 - i mod kByte) 1],
              blocks_free_num := sz_sub (blocks_free_num p) 1\<rparr>"
  from Suc.hyps(2) have lt: "i < idx + n"
    by linarith
  with Suc.prems have c1: "i < sz_add idx n"
    by (simp add: sz_add_eq)
  from lt Suc.prems have c2: "i div kByte < length (used_blocks p)"
    by (intro byte_in_range) linarith
  from lt Suc.prems have "\<not> block_in_use (used_blocks p) i"
    by simp
  then have c3: "shift_rem2 sg (used_blocks p ! (i div kByte)) (kByte - 1 - i mod kByte) \<noteq> 1"
    by (rule test_assert)
  from lt Suc.prems have c4: "sz_add i 1 = i + 1"
    by (simp add: sz_add_eq)
  from c1 c2 c3 c4 have unfold: "use_blocks_for sg p idx n i = use_blocks_for sg ?q idx n (i + 1)"
    by (subst use_blocks_for.simps) simp
  from Suc.prems Suc.hyps(2) have bfn: "blocks_free_num ?q = blocks_free_num p - 1" "1 \<le> blocks_free_num p"
    by (simp_all add: sz_sub_eq)
  have bits: "\<And>k. block_in_use (used_blocks ?q) k \<longleftrightarrow> block_in_use (used_blocks p) k \<or> k = i"
    using in_use_set [OF c2] by simp
  have "\<exists>p'. use_blocks_for sg ?q idx n (i + 1) = Inr p' \<and> marks ?q (i + 1) (idx + n) p'"
  proof (rule Suc.hyps(1))
    show "m = idx + n - (i + 1)"
      using Suc.hyps(2) by linarith
    show "idx + n < 2 ^ 64"
      by (rule Suc.prems(1))
    show "idx + n \<le> 8 * length (used_blocks ?q)"
      using Suc.prems(2) by simp
    show "i + 1 \<le> idx + n"
      using lt by simp
    show "\<forall>k. i + 1 \<le> k \<and> k < idx + n \<longrightarrow> \<not> block_in_use (used_blocks ?q) k"
      using Suc.prems(4) bits by auto
    show "idx + n - (i + 1) \<le> blocks_free_num ?q"
      using bfn Suc.prems(5) by linarith
    show "blocks_free_num ?q < 2 ^ 64"
      using bfn Suc.prems(6) by linarith
  qed
  then obtain p' where r: "use_blocks_for sg ?q idx n (i + 1) = Inr p'" and m: "marks ?q (i + 1) (idx + n) p'"
    by blast
  have "marks p i (idx + n) p'"
    unfolding marks_def
  proof (intro conjI allI)
    show "blocks_free_num p' + (idx + n - i) = blocks_free_num p"
      using m bfn lt unfolding marks_def by linarith
    show "block_in_use (used_blocks p') k \<longleftrightarrow> block_in_use (used_blocks p) k \<or> (i \<le> k \<and> k < idx + n)" for k
      using m bits lt unfolding marks_def by auto
  qed (use m in \<open>simp_all add: marks_def\<close>)
  with unfold r show ?case
    by simp
qed

lemma free_blocks_for_spec:
  assumes "idx + n < 2 ^ 64" and "idx + n \<le> 8 * length (used_blocks p)" and "i \<le> idx + n"
  shows "\<exists>p'. free_blocks_for p idx n i = Inr p' \<and> clears p i (idx + n) p'"
  using assms
proof (induction "idx + n - i" arbitrary: p i)
  case 0
  then have "\<not> i < sz_add idx n"
    by (simp add: sz_add_eq)
  then have "free_blocks_for p idx n i = Inr p"
    by (subst free_blocks_for.simps) simp
  moreover from 0 have "clears p i (idx + n) p"
    by (auto simp add: clears_def)
  ultimately show ?case
    by blast
next
  case (Suc m)
  define q where "q = p\<lparr>used_blocks := (used_blocks p)
                 [i div kByte := (used_blocks p ! (i div kByte)) AND (push_bit (kByte - 1 - i mod kByte) 1 XOR 255)]\<rparr>"
  from Suc.hyps(2) have lt: "i < idx + n"
    by linarith
  with Suc.prems have c1: "i < sz_add idx n"
    by (simp add: sz_add_eq)
  from lt Suc.prems have c2: "i div kByte < length (used_blocks p)"
    by (intro byte_in_range) linarith
  from lt Suc.prems have c4: "sz_add i 1 = i + 1"
    by (simp add: sz_add_eq)
  from c1 c2 c4 have unfold: "free_blocks_for p idx n i = free_blocks_for q idx n (i + 1)"
    unfolding q_def by (subst free_blocks_for.simps) simp
  have bits: "block_in_use (used_blocks q) k \<longleftrightarrow> block_in_use (used_blocks p) k \<and> k \<noteq> i" for k
    unfolding q_def using in_use_clear [OF c2, of k] by simp
  have fields: "block_size q = block_size p" "block_counter q = block_counter p"
    "free_block q = free_block p" "mem_pointer q = mem_pointer p"
    "length (used_blocks q) = length (used_blocks p)" "blocks_free_num q = blocks_free_num p"
    by (simp_all add: q_def)
  have "\<exists>p'. free_blocks_for q idx n (i + 1) = Inr p' \<and> clears q (i + 1) (idx + n) p'"
  proof (rule Suc.hyps(1))
    show "m = idx + n - (i + 1)"
      using Suc.hyps(2) by linarith
    show "idx + n < 2 ^ 64"
      by (rule Suc.prems(1))
    show "idx + n \<le> 8 * length (used_blocks q)"
      using Suc.prems(2) fields by simp
    show "i + 1 \<le> idx + n"
      using lt by simp
  qed
  then obtain p' where r: "free_blocks_for q idx n (i + 1) = Inr p'" and m: "clears q (i + 1) (idx + n) p'"
    by blast
  have "block_in_use (used_blocks p') k \<longleftrightarrow> block_in_use (used_blocks p) k \<and> \<not> (i \<le> k \<and> k < idx + n)" for k
  proof -
    have "block_in_use (used_blocks p') k \<longleftrightarrow> block_in_use (used_blocks q) k \<and> \<not> (i + 1 \<le> k \<and> k < idx + n)"
      using m by (simp add: clears_def)
    with bits [of k] lt show ?thesis
      by (cases "k = i") auto
  qed
  with m fields have "clears p i (idx + n) p'"
    by (simp add: clears_def)
  with unfold r show ?case
    by simp
qed

subsection \<open>The search: the window\<close>

lemma get_blocks_while_stop: "get_blocks_while sg ub n left i False right = Some (Inr (i, False, right))"
  by (subst get_blocks_while.simps) simp

lemma get_blocks_while_spec:
  assumes "8 * length ub \<le> 2 ^ 63" and "n < 2 ^ 64" and "left \<le> right" and "right \<le> left + n"
    and "right \<le> 8 * length ub"
  shows "\<exists>r. get_blocks_while sg ub n left i True right = Some r \<and> while_post ub n left i right r"
  using assms(3-5)
proof (induction "8 * length ub - right" arbitrary: right rule: less_induct)
  case less
  from less.prems assms(1) have small: "right \<le> 2 ^ 63"
    by linarith
  then have window: "sz_add (sz_sub right left) 1 = right - left + 1"
    using less.prems(1) by (simp add: sz_sub_eq sz_add_eq)
  show ?case
  proof (cases "right - left + 1 \<le> n")
    case False
    with less.prems have eq: "right = left + n"
      by linarith
    from False window have "get_blocks_while sg ub n left i True right = Some (Inr (i, True, right))"
      by (subst get_blocks_while.simps) simp
    moreover from eq less.prems have "while_post ub n left i right (Inr (i, True, right))"
      by (auto simp add: while_post_def)
    ultimately show ?thesis
      by blast
  next
    case True
    then have lt: "right < left + n"
      by linarith
    show ?thesis
    proof (cases "right div kByte < length ub")
      case False
      with True window have "get_blocks_while sg ub n left i True right = Some (Inl Undefined_Behaviour)"
        by (subst get_blocks_while.simps) simp
      moreover from False lt have "while_post ub n left i right (Inl Undefined_Behaviour)"
        using byte_out_of_range [of right ub] by (simp add: while_post_def)
      ultimately show ?thesis
        by blast
    next
      case inside: True
      then have r8: "right < 8 * length ub"
        by (simp add: kByte_def)
      from small have next_right: "sz_add right 1 = right + 1"
        by (simp add: sz_add_eq)
      show ?thesis
      proof (cases "block_in_use ub right")
        case True
        then have "shift_rem2 sg (ub ! (right div kByte)) (kByte - 1 - right mod kByte) \<noteq> 0"
          using test_in_use [of sg ub right] by blast
        with \<open>right - left + 1 \<le> n\<close> window inside next_right
        have "get_blocks_while sg ub n left i True right = get_blocks_while sg ub n left right False (right + 1)"
          by (subst get_blocks_while.simps) simp
        then have "get_blocks_while sg ub n left i True right = Some (Inr (right, False, right + 1))"
          by (simp add: get_blocks_while_stop)
        moreover from True lt r8 have "while_post ub n left i right (Inr (right, False, right + 1))"
          by (auto simp add: while_post_def)
        ultimately show ?thesis
          by blast
      next
        case False
        then have "\<not> shift_rem2 sg (ub ! (right div kByte)) (kByte - 1 - right mod kByte) \<noteq> 0"
          using test_in_use [of sg ub right] by blast
        with \<open>right - left + 1 \<le> n\<close> window inside next_right
        have unfold: "get_blocks_while sg ub n left i True right = get_blocks_while sg ub n left i True (right + 1)"
          by (subst get_blocks_while.simps) simp
        have "\<exists>r. get_blocks_while sg ub n left i True (right + 1) = Some r \<and> while_post ub n left i (right + 1) r"
        proof (rule less.hyps)
          show "8 * length ub - (right + 1) < 8 * length ub - right"
            using r8 by linarith
          show "left \<le> right + 1"
            using less.prems by linarith
          show "right + 1 \<le> left + n"
            using lt by linarith
          show "right + 1 \<le> 8 * length ub"
            using r8 by linarith
        qed
        then obtain r where r: "get_blocks_while sg ub n left i True (right + 1) = Some r"
          and post: "while_post ub n left i (right + 1) r"
          by blast
        have step: "right \<le> k \<Longrightarrow> k \<noteq> right \<Longrightarrow> right + 1 \<le> k" for k :: nat
          by linarith
        from post False have "while_post ub n left i right r"
          unfolding while_post_def
          by (auto split: sum.splits prod.splits if_splits dest: step)
        with unfold r show ?thesis
          by simp
      qed
    qed
  qed
qed

subsection \<open>The search: the candidates\<close>

lemma run_free_iff: "run_free ub j n \<longleftrightarrow> (\<forall>k. j \<le> k \<and> k < j + n \<longrightarrow> \<not> block_in_use ub k)"
  by (auto simp add: run_free_def)

lemma not_run_free: "block_in_use ub k \<Longrightarrow> j \<le> k \<Longrightarrow> k < j + n \<Longrightarrow> \<not> run_free ub j n"
  by (auto simp add: run_free_def)

lemma window_check: "i + n \<le> 2 ^ 63 \<Longrightarrow> sz_add (sz_sub (sz_sub (i + n) 1) i) 1 = n"
proof -
  assume a: "i + n \<le> 2 ^ 63"
  show ?thesis
  proof (cases "n = 0")
    case False
    with a have "sz_sub (i + n) 1 = i + n - 1"
      by (simp add: sz_sub_eq)
    moreover from a False have "sz_sub (i + n - 1) i = n - 1"
      by (simp add: sz_sub_eq)
    moreover from a False have "sz_add (n - 1) 1 = n"
      by (simp add: sz_add_eq)
    ultimately show ?thesis
      by simp
  next
    case True
    show ?thesis
    proof (cases "i = 0")
      case True
      with \<open>n = 0\<close> show ?thesis
        by (simp add: sz_sub_def sz_add_def)
    next
      case False
      with a \<open>n = 0\<close> have "sz_sub (i + n) 1 = i - 1"
        by (simp add: sz_sub_eq)
      moreover from False have "i - 1 + 2 ^ 64 - i = (2 ^ 64 - 1 :: nat)"
        by simp
      then have "sz_sub (i - 1) i = 2 ^ 64 - 1"
        by (simp add: sz_sub_def)
      ultimately show ?thesis
        using \<open>n = 0\<close> by (simp add: sz_add_def)
    qed
  qed
qed

lemma sz_add_ge: "\<not> sz_add i n \<le> b \<Longrightarrow> b < i + n"
proof -
  assume "\<not> sz_add i n \<le> b"
  moreover have "sz_add i n \<le> i + n"
    by (simp add: sz_add_def)
  ultimately show ?thesis
    by linarith
qed

lemma get_blocks_for_spec:
  assumes "8 * length (used_blocks p) \<le> 2 ^ 63" and "block_counter p \<le> 8 * length (used_blocks p)"
    and "n < 2 ^ 64" and "i \<le> 8 * length (used_blocks p)"
  shows "\<exists>r. get_blocks_for sg p n i = Some r \<and> for_post p n i r"
  using assms(4)
proof (induction "8 * length (used_blocks p) - i" arbitrary: i rule: less_induct)
  case less
  let ?ub = "used_blocks p"
  show ?case
  proof (cases "sz_add i n \<le> block_counter p")
    case False
    then have "get_blocks_for sg p n i = Some (Inr (p, block_counter p))"
      by (subst get_blocks_for.simps) simp
    moreover from False have "block_counter p < i + n"
      by (rule sz_add_ge)
    then have "for_post p n i (Inr (p, block_counter p))"
      by (auto simp add: for_post_def)
    ultimately show ?thesis
      by blast
  next
    case cond: True
    have "\<exists>r. get_blocks_while sg ?ub n i i True i = Some r \<and> while_post ?ub n i i i r"
      using assms(1) assms(3) less.prems by (intro get_blocks_while_spec) simp_all
    then obtain r where r: "get_blocks_while sg ?ub n i i True i = Some r"
      and post: "while_post ?ub n i i i r"
      by blast
    show ?thesis
    proof (cases r)
      case (Inl e)
      with post have e: "e = Undefined_Behaviour" and far: "8 * length ?ub < i + n"
        by (simp_all add: while_post_def)
      from cond r Inl have "get_blocks_for sg p n i = Some (Inl e)"
        by (subst get_blocks_for.simps) simp
      moreover have "\<not> (i \<le> block_counter p \<and> block_counter p + n < 2 ^ 64)"
      proof
        assume "i \<le> block_counter p \<and> block_counter p + n < 2 ^ 64"
        then have "sz_add i n = i + n"
          by (simp add: sz_add_eq)
        with cond far assms(2) show False
          by linarith
      qed
      ultimately show ?thesis
        using e by (simp add: for_post_def)
    next
      case (Inr t)
      then obtain i' ok' right' where t: "r = Inr (i', ok', right')"
        by (cases t) auto
      show ?thesis
      proof (cases ok')
        case True
        with post t have f: "i' = i" "right' = i + n" "i + n \<le> 8 * length ?ub"
          "\<forall>k. i \<le> k \<and> k < i + n \<longrightarrow> \<not> block_in_use ?ub k"
          by (simp_all add: while_post_def)
        from f(3) assms(1) have small: "i + n \<le> 2 ^ 63"
          by linarith
        then have w: "sz_add (sz_sub (sz_sub (i + n) 1) i) 1 = n"
          by (rule window_check)
        from small have s: "sz_add i n = i + n"
          by (simp add: sz_add_eq)
        from cond r t True f w
        have "get_blocks_for sg p n i = Some (Inr (if i = free_block p then p\<lparr>free_block := sz_add i n\<rparr> else p, i))"
          by (subst get_blocks_for.simps) simp
        then have "get_blocks_for sg p n i = Some (Inr (if i = free_block p then p\<lparr>free_block := i + n\<rparr> else p, i))"
          by (simp only: s)
        moreover from cond s f(4)
        have "for_post p n i (Inr (if i = free_block p then p\<lparr>free_block := i + n\<rparr> else p, i))"
          by (simp add: for_post_def run_free_iff)
        ultimately show ?thesis
          by blast
      next
        case False
        with post t have f: "right' = i' + 1" "i \<le> i'" "i' < i + n" "i' < 8 * length ?ub"
          "block_in_use ?ub i'"
          by (simp_all add: while_post_def)
        from f(4) assms(1) have s: "sz_add i' 1 = i' + 1"
          by (simp add: sz_add_eq)
        from cond r t False s
        have unfold: "get_blocks_for sg p n i = get_blocks_for sg p n (i' + 1)"
          by (subst get_blocks_for.simps) simp
        have "\<exists>r. get_blocks_for sg p n (i' + 1) = Some r \<and> for_post p n (i' + 1) r"
        proof (rule less.hyps)
          show "8 * length ?ub - (i' + 1) < 8 * length ?ub - i"
            using f by linarith
          show "i' + 1 \<le> 8 * length ?ub"
            using f by linarith
        qed
        then obtain r2 where r2: "get_blocks_for sg p n (i' + 1) = Some r2"
          and post2: "for_post p n (i' + 1) r2"
          by blast
        have skipped: "\<not> run_free ?ub j n" if "i \<le> j" and "j < i' + 1" for j
          using f(5) that f(3) by (intro not_run_free [of ?ub i']) simp_all
        have bound: "i' + 1 \<le> block_counter p" if "i \<le> block_counter p" and "block_counter p + n < 2 ^ 64"
        proof -
          from that have "sz_add i n = i + n"
            by (simp add: sz_add_eq)
          with cond f(3) show ?thesis
            by linarith
        qed
        have "for_post p n i r2"
        proof (cases r2)
          case (Inl e)
          with post2 bound show ?thesis
            by (auto simp add: for_post_def)
        next
          case (Inr u)
          obtain p' idx where u: "u = (p', idx)"
            by (cases u)
          from post2 Inr u consider
            (found) "i' + 1 \<le> idx" "idx + n \<le> block_counter p" "run_free ?ub idx n"
              "\<forall>j. i' + 1 \<le> j \<and> j < idx \<longrightarrow> \<not> run_free ?ub j n"
              "p' = (if idx = free_block p then p\<lparr>free_block := idx + n\<rparr> else p)"
          | (none) "idx = block_counter p" "p' = p"
              "\<forall>j. i' + 1 \<le> j \<and> j + n \<le> block_counter p \<longrightarrow> \<not> run_free ?ub j n"
            unfolding for_post_def by (simp only: sum.case prod.case) blast
          then show ?thesis
          proof cases
            case found
            have "\<not> run_free ?ub j n" if "i \<le> j" and "j < idx" for j
              using that skipped [of j] found(4) by (cases "j < i' + 1") simp_all
            then have "\<forall>j. i \<le> j \<and> j < idx \<longrightarrow> \<not> run_free ?ub j n"
              by blast
            moreover from found(1) f(2) have "i \<le> idx"
              by linarith
            ultimately have "i \<le> idx \<and> idx + n \<le> block_counter p \<and> run_free ?ub idx n \<and>
               (\<forall>j. i \<le> j \<and> j < idx \<longrightarrow> \<not> run_free ?ub j n) \<and>
               p' = (if idx = free_block p then p\<lparr>free_block := idx + n\<rparr> else p)"
              using found by blast
            then show ?thesis
              unfolding for_post_def Inr u by (simp only: sum.case prod.case) blast
          next
            case none
            have "\<not> run_free ?ub j n" if "i \<le> j" and "j + n \<le> block_counter p" for j
              using that skipped [of j] none(3) by (cases "j < i' + 1") simp_all
            then have "idx = block_counter p \<and> p' = p \<and>
               (\<forall>j. i \<le> j \<and> j + n \<le> block_counter p \<longrightarrow> \<not> run_free ?ub j n)"
              using none by blast
            then show ?thesis
              unfolding for_post_def Inr u by (simp only: sum.case prod.case) blast
          qed
        qed
        with unfold r2 show ?thesis
          by simp
      qed
    qed
  qed
qed

subsection \<open>Counting free blocks\<close>

lemma zero_bits_card:
  "zero_bits p = card {i. i < block_counter p \<and> \<not> block_in_use (used_blocks p) i}"
proof -
  have "zero_bits p = card ({i. \<not> block_in_use (used_blocks p) i} \<inter> set [0..<block_counter p])"
    unfolding zero_bits_def by (rule distinct_length_filter) simp
  also have "{i. \<not> block_in_use (used_blocks p) i} \<inter> set [0..<block_counter p]
      = {i. i < block_counter p \<and> \<not> block_in_use (used_blocks p) i}"
    by auto
  finally show ?thesis .
qed

lemma zero_bits_le: "zero_bits p \<le> block_counter p"
proof -
  have "card {i. i < block_counter p \<and> \<not> block_in_use (used_blocks p) i} \<le> card {..<block_counter p}"
    by (rule card_mono) auto
  then show ?thesis
    by (simp add: zero_bits_card)
qed

lemma zero_bits_mark:
  assumes "block_counter p' = block_counter p"
    and "\<forall>k. block_in_use (used_blocks p') k \<longleftrightarrow> block_in_use (used_blocks p) k \<or> (a \<le> k \<and> k < a + n)"
    and "a + n \<le> block_counter p"
    and "\<forall>k. a \<le> k \<and> k < a + n \<longrightarrow> \<not> block_in_use (used_blocks p) k"
  shows "zero_bits p' + n = zero_bits p"
proof -
  let ?F = "{i. i < block_counter p \<and> \<not> block_in_use (used_blocks p) i}"
  have sub: "{a..<a + n} \<subseteq> ?F"
    using assms(3,4) by auto
  have "{i. i < block_counter p' \<and> \<not> block_in_use (used_blocks p') i} = ?F - {a..<a + n}"
  proof (rule set_eqI)
    fix i
    show "i \<in> {i. i < block_counter p' \<and> \<not> block_in_use (used_blocks p') i} \<longleftrightarrow> i \<in> ?F - {a..<a + n}"
      using assms(1) assms(2) [THEN spec, of i] by auto
  qed
  then have "zero_bits p' = card (?F - {a..<a + n})"
    by (simp add: zero_bits_card)
  also have "\<dots> = card ?F - card {a..<a + n}"
    using sub by (intro card_Diff_subset) simp_all
  finally have "zero_bits p' = zero_bits p - n"
    by (simp add: zero_bits_card)
  moreover have "card {a..<a + n} \<le> card ?F"
    using sub by (intro card_mono) simp_all
  then have "n \<le> zero_bits p"
    by (simp add: zero_bits_card)
  ultimately show ?thesis
    by linarith
qed

lemma zero_bits_clear:
  assumes "block_counter p' = block_counter p"
    and "\<forall>k. block_in_use (used_blocks p') k \<longleftrightarrow> block_in_use (used_blocks p) k \<and> \<not> (a \<le> k \<and> k < a + n)"
    and "a + n \<le> block_counter p"
    and "\<forall>k. a \<le> k \<and> k < a + n \<longrightarrow> block_in_use (used_blocks p) k"
  shows "zero_bits p' = zero_bits p + n"
proof -
  let ?F = "{i. i < block_counter p \<and> \<not> block_in_use (used_blocks p) i}"
  have disj: "?F \<inter> {a..<a + n} = {}"
    using assms(4) by auto
  have "{i. i < block_counter p' \<and> \<not> block_in_use (used_blocks p') i} = ?F \<union> {a..<a + n}"
  proof (rule set_eqI)
    fix i
    show "i \<in> {i. i < block_counter p' \<and> \<not> block_in_use (used_blocks p') i} \<longleftrightarrow> i \<in> ?F \<union> {a..<a + n}"
      using assms(1,3) assms(2) [THEN spec, of i] by auto
  qed
  then have "zero_bits p' = card (?F \<union> {a..<a + n})"
    by (simp add: zero_bits_card)
  also have "\<dots> = card ?F + card {a..<a + n}"
    using disj by (intro card_Un_disjoint) simp_all
  finally show ?thesis
    by (simp add: zero_bits_card)
qed

lemma zero_bits_run:
  assumes "a + n \<le> block_counter p"
    and "\<forall>k. a \<le> k \<and> k < a + n \<longrightarrow> \<not> block_in_use (used_blocks p) k"
  shows "n \<le> zero_bits p"
proof -
  have "card {a..<a + n} \<le> card {i. i < block_counter p \<and> \<not> block_in_use (used_blocks p) i}"
    using assms by (intro card_mono) auto
  then show ?thesis
    by (simp add: zero_bits_card)
qed

lemma zero_bits_used_run:
  assumes "a + n \<le> block_counter p"
    and "\<forall>k. a \<le> k \<and> k < a + n \<longrightarrow> block_in_use (used_blocks p) k"
  shows "zero_bits p + n \<le> block_counter p"
proof -
  let ?F = "{i. i < block_counter p \<and> \<not> block_in_use (used_blocks p) i}"
  have "card (?F \<union> {a..<a + n}) = card ?F + card {a..<a + n}"
    using assms(2) by (intro card_Un_disjoint) auto
  moreover have "card (?F \<union> {a..<a + n}) \<le> card {..<block_counter p}"
    using assms(1) by (intro card_mono) auto
  ultimately show ?thesis
    by (simp add: zero_bits_card)
qed

lemma zero_bits_none:
  assumes "zero_bits p = 0" and "k < block_counter p"
  shows "block_in_use (used_blocks p) k"
proof (rule ccontr)
  assume "\<not> block_in_use (used_blocks p) k"
  with assms(2) have "k \<in> {i. i < block_counter p \<and> \<not> block_in_use (used_blocks p) i}"
    by simp
  moreover have "finite {i. i < block_counter p \<and> \<not> block_in_use (used_blocks p) i}"
    by simp
  ultimately have "card {i. i < block_counter p \<and> \<not> block_in_use (used_blocks p) i} \<noteq> 0"
    by (metis card_0_eq empty_iff)
  with assms(1) show False
    by (simp add: zero_bits_card)
qed

lemma config_bounds:
  assumes "config_ok bsize bcount mem"
  shows "bcount < 2 ^ 63" and "0 < bsize" and "0 < bcount" and "0 < mem" and "bsize * bcount < 2 ^ 63"
    and "mem + bsize * bcount \<le> 2 ^ 64"
proof -
  from assms show c: "0 < bsize" "0 < bcount" "0 < mem" "bsize * bcount < 2 ^ 63" "mem + bsize * bcount \<le> 2 ^ 64"
    by (simp_all add: config_ok_def)
  from c(1) have "bcount \<le> bsize * bcount"
    by simp
  with c(4) show "bcount < 2 ^ 63"
    by linarith
qed

lemma bitmap_bounds:
  assumes "0 < (bcount :: nat)" and "bcount < 2 ^ 63" and "len = 1 + (bcount - 1) div 8"
  shows "8 * len \<le> 2 ^ 63" and "bcount \<le> 8 * len"
  using assms by simp_all

lemma pool_wf_bounds:
  assumes "pool_wf p"
  shows "8 * length (used_blocks p) \<le> 2 ^ 63" and "block_counter p \<le> 8 * length (used_blocks p)"
    and "block_counter p < 2 ^ 63" and "0 < block_size p" and "0 < mem_pointer p"
    and "block_size p * block_counter p < 2 ^ 63"
    and "mem_pointer p + block_size p * block_counter p \<le> 2 ^ 64"
    and "free_block p \<le> block_counter p" and "blocks_free_num p = zero_bits p"
    and "\<And>k. k < free_block p \<Longrightarrow> block_in_use (used_blocks p) k"
proof -
  from assms have c: "config_ok (block_size p) (block_counter p) (mem_pointer p)"
    and len: "length (used_blocks p) = 1 + (block_counter p - 1) div 8"
    by (simp_all add: pool_wf_def)
  from c show bc: "block_counter p < 2 ^ 63" and "0 < block_size p" and "0 < mem_pointer p"
    and "block_size p * block_counter p < 2 ^ 63"
    and "mem_pointer p + block_size p * block_counter p \<le> 2 ^ 64"
    by (rule config_bounds)+
  from c have pos: "0 < block_counter p"
    by (rule config_bounds)
  from pos bc len show "8 * length (used_blocks p) \<le> 2 ^ 63"
    by (rule bitmap_bounds)
  from pos bc len show "block_counter p \<le> 8 * length (used_blocks p)"
    by (rule bitmap_bounds)
  from assms show "free_block p \<le> block_counter p" and "blocks_free_num p = zero_bits p"
    and "\<And>k. k < free_block p \<Longrightarrow> block_in_use (used_blocks p) k"
    by (simp_all add: pool_wf_def)
qed

subsection \<open>Allocation\<close>

lemma number_of_blocks_lt: "number_of_blocks p bytes < 2 ^ 64"
  unfolding number_of_blocks_def by (rule sz_add_lt)

lemma hint_update_same: "(if idx = free_block p then p\<lparr>free_block := idx + 0\<rparr> else p) = p"
  by simp

lemma Pool_allocate_spec:
  assumes wf: "pool_wf p"
  shows "\<exists>r. Pool_allocate sg p bytes = Some r \<and> alloc_post p (number_of_blocks p bytes) r"
proof -
  let ?n = "number_of_blocks p bytes"
  let ?ub = "used_blocks p"
  note b = pool_wf_bounds [OF wf]
  have nz: "block_size p \<noteq> 0"
    using b(4) by simp
  have "\<exists>r. get_blocks_for sg p ?n (free_block p) = Some r \<and> for_post p ?n (free_block p) r"
    using b(1) b(2) number_of_blocks_lt b(8) b(2) by (intro get_blocks_for_spec) simp_all
  then obtain r0 where r0: "get_blocks sg p ?n = Some r0" and post: "for_post p ?n (free_block p) r0"
    unfolding get_blocks_def by blast
  show ?thesis
  proof (cases r0)
    case (Inl e)
    with post b(8) have "e = Undefined_Behaviour" "2 ^ 64 \<le> block_counter p + ?n"
      by (simp_all add: for_post_def)
    moreover from r0 Inl nz have "Pool_allocate sg p bytes = Some (Inl e)"
      by (simp add: Pool_allocate_def)
    ultimately show ?thesis
      by (simp add: alloc_post_def)
  next
    case (Inr u)
    obtain p1 idx where u: "u = (p1, idx)"
      by (cases u)
    from post Inr u consider
      (found) "free_block p \<le> idx" "idx + ?n \<le> block_counter p" "run_free ?ub idx ?n"
        "\<forall>j. free_block p \<le> j \<and> j < idx \<longrightarrow> \<not> run_free ?ub j ?n"
        "p1 = (if idx = free_block p then p\<lparr>free_block := idx + ?n\<rparr> else p)"
    | (none) "idx = block_counter p" "p1 = p"
        "\<forall>j. free_block p \<le> j \<and> j + ?n \<le> block_counter p \<longrightarrow> \<not> run_free ?ub j ?n"
      unfolding for_post_def by (simp only: sum.case prod.case) blast
    then show ?thesis
    proof cases
      case none
      from r0 Inr u none(1,2) nz have "Pool_allocate sg p bytes = Some (Inr (p, 0))"
        by (simp add: Pool_allocate_def)
      moreover from none(3) have "alloc_post p ?n (Inr (p, 0))"
        by (simp add: alloc_post_def)
      ultimately show ?thesis
        by blast
    next
      case found
      have f1: "block_counter p1 = block_counter p" "used_blocks p1 = ?ub" "block_size p1 = block_size p"
        "mem_pointer p1 = mem_pointer p" "blocks_free_num p1 = blocks_free_num p"
        "free_block p1 = (if idx = free_block p then idx + ?n else free_block p)"
        using found(5) by simp_all
      show ?thesis
      proof (cases "idx < block_counter p")
        case False
        with found(2) have z: "idx = block_counter p" "?n = 0"
          by linarith+
        with found(5) have "p1 = p"
          by simp
        with r0 Inr u z nz have "Pool_allocate sg p bytes = Some (Inr (p, 0))"
          by (simp add: Pool_allocate_def)
        moreover from found(4) z have "alloc_post p ?n (Inr (p, 0))"
          by (simp add: alloc_post_def)
        ultimately show ?thesis
          by blast
      next
        case True
        from found(3) have free: "\<forall>k. idx \<le> k \<and> k < idx + ?n \<longrightarrow> \<not> block_in_use ?ub k"
          by (simp add: run_free_iff)
        have enough: "?n \<le> zero_bits p"
          using found(2) free by (rule zero_bits_run)
        have zb: "zero_bits p < 2 ^ 64"
          using zero_bits_le [of p] b(3) by simp
        have "\<exists>p2. use_blocks_for sg p1 idx ?n idx = Inr p2 \<and> marks p1 idx (idx + ?n) p2"
        proof (rule use_blocks_for_spec)
          show "idx + ?n < 2 ^ 64"
            using found(2) b(3) by simp
          show "idx + ?n \<le> 8 * length (used_blocks p1)"
            using found(2) b(2) f1 by simp
          show "idx \<le> idx + ?n"
            by simp
          show "\<forall>k. idx \<le> k \<and> k < idx + ?n \<longrightarrow> \<not> block_in_use (used_blocks p1) k"
            using free f1 by simp
          show "idx + ?n - idx \<le> blocks_free_num p1"
            using enough f1 b(9) by simp
          show "blocks_free_num p1 < 2 ^ 64"
            using zb f1 b(9) by simp
        qed
        then obtain p2 where p2: "use_blocks sg p1 idx ?n = Inr p2" and m: "marks p1 idx (idx + ?n) p2"
          unfolding use_blocks_def by blast
        from m f1 have al: "allocated p ?n idx p2"
          by (simp add: marks_def allocated_def)
        from True have "idx \<le> block_counter p"
          by simp
        then have "idx * block_size p \<le> block_counter p * block_size p"
          by (rule mult_le_mono1)
        also have "\<dots> = block_size p * block_counter p"
          by (rule mult.commute)
        also have "\<dots> < 2 ^ 63"
          by (rule b(6))
        finally have "idx * block_size p < 2 ^ 64"
          by simp
        then have mul: "sz_mul idx (block_size p) = idx * block_size p"
          by (rule sz_mul_eq)
        from m f1 have f2: "mem_pointer p2 = mem_pointer p" "block_size p2 = block_size p"
          by (simp_all add: marks_def)
        from r0 Inr u nz True f1 p2 f2 mul
        have "Pool_allocate sg p bytes = Some (Inr (p2, mem_pointer p + idx * block_size p))"
          by (simp add: Pool_allocate_def)
        moreover have "alloc_post p ?n (Inr (p2, mem_pointer p + idx * block_size p))"
          unfolding alloc_post_def using found(1-4) True al b(5)
          by (simp only: sum.case prod.case) (intro disjI1 exI [of _ idx], simp)
        ultimately show ?thesis
          by blast
      qed
    qed
  qed
qed

subsection \<open>Release and the invariant\<close>

lemma allocated_wf:
  assumes wf: "pool_wf p" and al: "allocated p n idx p'" and "free_block p \<le> idx"
    and "idx + n \<le> block_counter p" and "run_free (used_blocks p) idx n"
  shows "pool_wf p'"
proof -
  note b = pool_wf_bounds [OF wf]
  from al have f: "block_size p' = block_size p" "block_counter p' = block_counter p"
    "mem_pointer p' = mem_pointer p" "length (used_blocks p') = length (used_blocks p)"
    "free_block p' = (if idx = free_block p then idx + n else free_block p)"
    "blocks_free_num p' + n = blocks_free_num p"
    and bits: "\<forall>k. block_in_use (used_blocks p') k \<longleftrightarrow> block_in_use (used_blocks p) k \<or> (idx \<le> k \<and> k < idx + n)"
    by (simp_all add: allocated_def)
  from assms(5) have free: "\<forall>k. idx \<le> k \<and> k < idx + n \<longrightarrow> \<not> block_in_use (used_blocks p) k"
    by (simp add: run_free_iff)
  have "zero_bits p' + n = zero_bits p"
    using f(2) bits assms(4) free by (rule zero_bits_mark)
  with f(6) b(9) have c: "blocks_free_num p' = zero_bits p'"
    by linarith
  have h: "free_block p' \<le> block_counter p'"
    using f(2,5) assms(4) b(8) by simp
  have u: "block_in_use (used_blocks p') k" if "k < free_block p'" for k
  proof (cases "k < free_block p")
    case True
    then have "block_in_use (used_blocks p) k"
      by (rule b(10))
    with bits show ?thesis
      by simp
  next
    case False
    with that f(5) assms(3) have "idx \<le> k \<and> k < idx + n"
      by (simp split: if_splits)
    with bits show ?thesis
      by simp
  qed
  from wf f c h u show ?thesis
    by (simp add: pool_wf_def)
qed

lemma Pool_deallocate_spec:
  assumes "block_size p \<noteq> 0" and "pointer \<noteq> 0"
    and "idx = sz_sub pointer (mem_pointer p) div block_size p" and "n = number_of_blocks p bytes"
    and "idx + n < 2 ^ 64" and "idx + n \<le> 8 * length (used_blocks p)"
  shows "\<exists>p'. Pool_deallocate p pointer bytes = Inr p' \<and> released p n idx p'"
proof -
  have "\<exists>p1. free_blocks_for p idx n idx = Inr p1 \<and> clears p idx (idx + n) p1"
    using assms(5,6) by (intro free_blocks_for_spec) simp_all
  then obtain p1 where p1: "free_blocks_for p idx n idx = Inr p1" and c: "clears p idx (idx + n) p1"
    by blast
  define p' where "p' = p1\<lparr>free_block := (if idx < free_block p1 then idx else free_block p1),
                         blocks_free_num := sz_add (blocks_free_num p1) n\<rparr>"
  from p1 assms(1-4) have "Pool_deallocate p pointer bytes = Inr p'"
    by (simp add: Pool_deallocate_def free_blocks_def p'_def)
  moreover from c have "released p n idx p'"
    by (simp add: clears_def released_def p'_def)
  ultimately show ?thesis
    by blast
qed

lemma released_wf:
  assumes wf: "pool_wf p" and re: "released p n idx p'" and "idx + n \<le> block_counter p"
    and used: "\<forall>k. idx \<le> k \<and> k < idx + n \<longrightarrow> block_in_use (used_blocks p) k"
  shows "pool_wf p'"
proof -
  note b = pool_wf_bounds [OF wf]
  from re have f: "block_size p' = block_size p" "block_counter p' = block_counter p"
    "mem_pointer p' = mem_pointer p" "length (used_blocks p') = length (used_blocks p)"
    "free_block p' = (if idx < free_block p then idx else free_block p)"
    "blocks_free_num p' = sz_add (blocks_free_num p) n"
    and bits: "\<forall>k. block_in_use (used_blocks p') k \<longleftrightarrow> block_in_use (used_blocks p) k \<and> \<not> (idx \<le> k \<and> k < idx + n)"
    by (simp_all add: released_def)
  have z: "zero_bits p' = zero_bits p + n"
    using f(2) bits assms(3) used by (rule zero_bits_clear)
  have "zero_bits p + n \<le> block_counter p"
    using assms(3) used by (rule zero_bits_used_run)
  with b(3) b(9) have "sz_add (blocks_free_num p) n = blocks_free_num p + n"
    by (intro sz_add_eq) simp
  with z f(6) b(9) have c: "blocks_free_num p' = zero_bits p'"
    by simp
  have h: "free_block p' \<le> block_counter p'"
    using f(2,5) b(8) by simp
  have u: "block_in_use (used_blocks p') k" if "k < free_block p'" for k
  proof -
    from that f(5) have "k < free_block p" "k < idx"
      by (simp_all split: if_splits)
    with b(10) [of k] bits show ?thesis
      by simp
  qed
  from wf f c h u show ?thesis
    by (simp add: pool_wf_def)
qed

lemma blocks_of_same:
  "mem_pointer p' = mem_pointer p \<Longrightarrow> block_size p' = block_size p \<Longrightarrow> blocks_of p' = blocks_of p"
  by (rule ext) (simp add: blocks_of_def number_of_blocks_def)

lemma live_entry_same:
  assumes "live_entry p e" and "mem_pointer p' = mem_pointer p" and "block_size p' = block_size p"
    and "block_counter p' = block_counter p"
    and "\<And>k. k \<in> blocks_of p e \<Longrightarrow> block_in_use (used_blocks p) k \<Longrightarrow> block_in_use (used_blocks p') k"
  shows "live_entry p' e"
proof -
  from assms(2,3) have "blocks_of p' = blocks_of p"
    by (rule blocks_of_same)
  with assms show ?thesis
    by (simp add: live_entry_def number_of_blocks_def)
qed

lemma disjoint_remove1: "disjoint_sets (map f xs) \<Longrightarrow> disjoint_sets (map f (remove1 x xs))"
proof (induction xs)
  case Nil
  then show ?case by simp
next
  case (Cons a xs)
  have "set (remove1 x xs) \<subseteq> set xs"
    by (rule set_remove1_subset)
  with Cons show ?case
    by auto
qed

lemma disjoint_others:
  "disjoint_sets (map f xs) \<Longrightarrow> x \<in> set xs \<Longrightarrow> y \<in> set (remove1 x xs) \<Longrightarrow> f x \<inter> f y = {}"
proof (induction xs)
  case Nil
  then show ?case by simp
next
  case (Cons a xs)
  show ?case
  proof (cases "a = x")
    case True
    with Cons.prems show ?thesis
      by auto
  next
    case False
    with Cons.prems have x: "x \<in> set xs" and y: "y = a \<or> y \<in> set (remove1 x xs)"
      by auto
    from y show ?thesis
    proof
      assume "y = a"
      with Cons.prems(1) x show ?thesis
        by auto
    next
      assume "y \<in> set (remove1 x xs)"
      with Cons.IH Cons.prems(1) x show ?thesis
        by simp
    qed
  qed
qed

lemma entry_index:
  assumes wf: "pool_wf p" and "idx < block_counter p"
  shows "sz_sub (mem_pointer p + idx * block_size p) (mem_pointer p) div block_size p = idx"
proof -
  note b = pool_wf_bounds [OF wf]
  from assms(2) have "idx \<le> block_counter p"
    by simp
  then have "idx * block_size p \<le> block_counter p * block_size p"
    by (rule mult_le_mono1)
  also have "\<dots> = block_size p * block_counter p"
    by (rule mult.commute)
  finally have "mem_pointer p + idx * block_size p \<le> mem_pointer p + block_size p * block_counter p"
    by simp
  moreover have "idx * block_size p < block_counter p * block_size p"
    using assms(2) b(4) by simp
  then have "mem_pointer p + idx * block_size p < mem_pointer p + block_size p * block_counter p"
    by (simp add: mult.commute)
  ultimately have "mem_pointer p + idx * block_size p < 2 ^ 64"
    using b(7) by linarith
  then have "sz_sub (mem_pointer p + idx * block_size p) (mem_pointer p) = idx * block_size p"
    by (simp add: sz_sub_eq)
  with b(4) show ?thesis
    by simp
qed

subsection \<open>Reachable states\<close>

lemma allocate_state_inv:
  assumes inv: "state_inv (p, live)" and "bytes < 2 ^ 64"
    and res: "Pool_allocate sg p bytes = Some (Inr (p', pointer))"
  shows "state_inv (p', if pointer = 0 then live else (pointer, bytes) # live)"
proof -
  let ?n = "number_of_blocks p bytes"
  from inv have wf: "pool_wf p" and entries: "\<forall>e\<in>set live. live_entry p e"
    and disj: "disjoint_sets (map (blocks_of p) live)"
    by (simp_all add: state_inv_def)
  from Pool_allocate_spec [OF wf, of sg bytes] res have "alloc_post p ?n (Inr (p', pointer))"
    by simp
  then consider
    (found) idx where "pointer = mem_pointer p + idx * block_size p" "pointer \<noteq> 0"
      "free_block p \<le> idx" "idx < block_counter p" "idx + ?n \<le> block_counter p"
      "run_free (used_blocks p) idx ?n" "allocated p ?n idx p'"
  | (none) "pointer = 0" "p' = p"
    unfolding alloc_post_def by (simp only: sum.case prod.case) blast
  then show ?thesis
  proof cases
    case none
    with inv show ?thesis
      by simp
  next
    case found
    from found(7) have f: "block_size p' = block_size p" "block_counter p' = block_counter p"
      "mem_pointer p' = mem_pointer p"
      and bits: "\<forall>k. block_in_use (used_blocks p') k \<longleftrightarrow> block_in_use (used_blocks p) k \<or> (idx \<le> k \<and> k < idx + ?n)"
      by (simp_all add: allocated_def)
    have wf': "pool_wf p'"
      using wf found(7) found(3) found(5) found(6) by (rule allocated_wf)
    have same: "blocks_of p' = blocks_of p"
      using f(3) f(1) by (rule blocks_of_same)
    have idx: "sz_sub pointer (mem_pointer p) div block_size p = idx"
      unfolding found(1) using wf found(4) by (rule entry_index)
    then have new: "blocks_of p (pointer, bytes) = {idx..<idx + ?n}"
      by (simp add: blocks_of_def)
    have old: "live_entry p' e" if "e \<in> set live" for e
    proof -
      from that entries have "live_entry p e"
        by simp
      then show ?thesis
        using f(3) f(1) f(2) by (rule live_entry_same) (use bits in simp)
    qed
    have "live_entry p' (pointer, bytes)"
      unfolding live_entry_def same new
      using found(2) found(5) idx f bits by (simp add: number_of_blocks_def)
    with old have e': "\<forall>e\<in>set ((pointer, bytes) # live). live_entry p' e"
      by simp
    have "blocks_of p (pointer, bytes) \<inter> blocks_of p e = {}" if "e \<in> set live" for e
    proof -
      from that entries have "\<forall>k\<in>blocks_of p e. block_in_use (used_blocks p) k"
        by (simp add: live_entry_def)
      moreover from found(6) have "\<forall>k\<in>{idx..<idx + ?n}. \<not> block_in_use (used_blocks p) k"
        by (simp add: run_free_def)
      ultimately show ?thesis
        unfolding new by blast
    qed
    with disj have "disjoint_sets (map (blocks_of p') ((pointer, bytes) # live))"
      by (simp add: same)
    with wf' e' found(2) show ?thesis
      by (simp add: state_inv_def)
  qed
qed

lemma deallocate_state_inv:
  assumes inv: "state_inv (p, live)" and mem: "(pointer, bytes) \<in> set live"
  shows "\<exists>p'. Pool_deallocate p pointer bytes = Inr p' \<and>
           released p (number_of_blocks p bytes) (sz_sub pointer (mem_pointer p) div block_size p) p' \<and>
           state_inv (p', remove1 (pointer, bytes) live)"
proof -
  let ?n = "number_of_blocks p bytes"
  let ?idx = "sz_sub pointer (mem_pointer p) div block_size p"
  let ?e = "(pointer, bytes)"
  from inv have wf: "pool_wf p" and entries: "\<forall>e\<in>set live. live_entry p e"
    and disj: "disjoint_sets (map (blocks_of p) live)"
    by (simp_all add: state_inv_def)
  note b = pool_wf_bounds [OF wf]
  from entries mem have "live_entry p ?e"
    by blast
  then have e: "pointer \<noteq> 0" "?idx + ?n \<le> block_counter p"
    "\<forall>k\<in>blocks_of p ?e. block_in_use (used_blocks p) k"
    by (simp_all add: live_entry_def)
  have range: "blocks_of p ?e = {?idx..<?idx + ?n}"
    by (simp add: blocks_of_def)
  from e(3) have used: "\<forall>k. ?idx \<le> k \<and> k < ?idx + ?n \<longrightarrow> block_in_use (used_blocks p) k"
    unfolding range by simp
  have "\<exists>p'. Pool_deallocate p pointer bytes = Inr p' \<and> released p ?n ?idx p'"
  proof (rule Pool_deallocate_spec)
    show "block_size p \<noteq> 0"
      using b(4) by simp
    show "pointer \<noteq> 0"
      by (rule e(1))
    show "?idx + ?n < 2 ^ 64"
      using e(2) b(3) by simp
    show "?idx + ?n \<le> 8 * length (used_blocks p)"
      using e(2) b(2) by linarith
  qed simp_all
  then obtain p' where r: "Pool_deallocate p pointer bytes = Inr p'" and re: "released p ?n ?idx p'"
    by blast
  from re have f: "block_size p' = block_size p" "block_counter p' = block_counter p"
    "mem_pointer p' = mem_pointer p"
    and bits: "\<forall>k. block_in_use (used_blocks p') k \<longleftrightarrow> block_in_use (used_blocks p) k \<and> \<not> (?idx \<le> k \<and> k < ?idx + ?n)"
    by (simp_all add: released_def)
  have wf': "pool_wf p'"
    using wf re e(2) used by (rule released_wf)
  have same: "blocks_of p' = blocks_of p"
    using f(3) f(1) by (rule blocks_of_same)
  have rest: "live_entry p' x" if "x \<in> set (remove1 ?e live)" for x
  proof -
    from that have "x \<in> set live"
      using set_remove1_subset [of ?e live] by blast
    with entries have lx: "live_entry p x"
      by simp
    from disj mem that have "blocks_of p ?e \<inter> blocks_of p x = {}"
      by (rule disjoint_others)
    then have apart: "k \<in> blocks_of p x \<Longrightarrow> \<not> (?idx \<le> k \<and> k < ?idx + ?n)" for k
      unfolding range by auto
    show ?thesis
      using lx f(3) f(1) f(2) by (rule live_entry_same) (use bits apart in simp)
  qed
  from disj have "disjoint_sets (map (blocks_of p') (remove1 ?e live))"
    unfolding same by (rule disjoint_remove1)
  with wf' rest have "state_inv (p', remove1 ?e live)"
    by (simp add: state_inv_def)
  with r re show ?thesis
    by blast
qed

lemma valid_call_state_inv:
  assumes "state_inv s" and "valid_call sg s c = Some s'"
  shows "state_inv s'"
proof -
  obtain p live where s: "s = (p, live)"
    by (cases s)
  show ?thesis
  proof (cases c)
    case (Allocate bytes)
    with assms(2) s obtain p' pointer where "bytes < 2 ^ 64"
      and "Pool_allocate sg p bytes = Some (Inr (p', pointer))"
      and "s' = (p', if pointer = 0 then live else (pointer, bytes) # live)"
      by (auto split: if_splits option.splits sum.splits)
    with assms(1) s show ?thesis
      using allocate_state_inv [of p live bytes sg p' pointer] by simp
  next
    case (Deallocate pointer bytes)
    with assms(2) s obtain p' where m: "(pointer, bytes) \<in> set live"
      and r: "Pool_deallocate p pointer bytes = Inr p'"
      and s': "s' = (p', remove1 (pointer, bytes) live)"
      by (auto split: if_splits sum.splits)
    from assms(1) s m r s' show ?thesis
      using deallocate_state_inv [of p live pointer bytes] by auto
  qed
qed

lemma valid_use_state_inv:
  "state_inv s \<Longrightarrow> valid_use sg s calls = Some s' \<Longrightarrow> state_inv s'"
proof (induction calls arbitrary: s)
  case Nil
  then show ?case by simp
next
  case (Cons c calls)
  from Cons.prems(2) obtain s1 where c: "valid_call sg s c = Some s1"
    and rest: "valid_use sg s1 calls = Some s'"
    by (auto split: option.splits)
  from Cons.prems(1) c have "state_inv s1"
    by (rule valid_call_state_inv)
  then show ?case
    using rest by (rule Cons.IH)
qed

lemma fresh_not_in_use: "k div kByte < m \<Longrightarrow> \<not> block_in_use (replicate m 0) k"
  by (simp add: block_in_use_def)

lemma Pool_state_inv:
  assumes c: "config_ok bsize bcount mem" and p0: "Pool bsize bcount mem = Inr p0"
  shows "state_inv (p0, [])"
proof -
  note b = config_bounds [OF c]
  define len where "len = sz_add 1 (sz_sub bcount 1 div kByte)"
  from b(1) b(3) have len: "len = 1 + (bcount - 1) div 8"
    by (simp add: len_def sz_sub_eq sz_add_eq kByte_def)
  from p0 b(4) have p: "p0 = \<lparr>block_size = bsize, block_counter = bcount, blocks_free_num = bcount,
      free_block = 0, mem_pointer = mem, used_blocks = replicate len 0\<rparr>"
    by (simp add: Pool_def len_def)
  have "k div kByte < len" if "k < bcount" for k
    using that by (simp add: kByte_def len)
  then have "\<forall>k\<in>set [0..<bcount]. \<not> block_in_use (replicate len 0) k"
    by (simp add: fresh_not_in_use)
  then have "filter (\<lambda>i. \<not> block_in_use (replicate len 0) i) [0..<bcount] = [0..<bcount]"
    by (rule filter_True)
  then have "zero_bits p0 = bcount"
    by (simp add: zero_bits_def p)
  moreover have "length (used_blocks p0) = 1 + (bcount - 1) div 8"
    by (simp add: p len)
  ultimately show ?thesis
    using c by (simp add: state_inv_def pool_wf_def p)
qed

lemma reachable_state_inv:
  assumes "reachable sg bsize bcount mem calls s"
  shows "state_inv s"
proof -
  from assms obtain p0 where c: "config_ok bsize bcount mem" and p0: "Pool bsize bcount mem = Inr p0"
    and u: "valid_use sg (p0, []) calls = Some s"
    by (auto simp add: reachable_def split: sum.splits)
  from c p0 have "state_inv (p0, [])"
    by (rule Pool_state_inv)
  then show ?thesis
    using u by (rule valid_use_state_inv)
qed

lemma reachable_pool_wf: "reachable sg bsize bcount mem calls (p, live) \<Longrightarrow> pool_wf p"
  using reachable_state_inv [of sg bsize bcount mem calls "(p, live)"] by (simp add: state_inv_def)

lemma pool_reachable_wf: "pool_reachable sg p \<Longrightarrow> pool_wf p"
  unfolding pool_reachable_def using reachable_pool_wf by blast

subsection \<open>Requests and their block counts\<close>

lemma number_of_blocks_pos:
  assumes "0 < bytes" and "bytes < 2 ^ 64" and "0 < block_size p"
  shows "number_of_blocks p bytes = 1 + (bytes - 1) div block_size p"
proof -
  from assms have "sz_sub bytes 1 = bytes - 1"
    by (simp add: sz_sub_eq)
  moreover have "(bytes - 1) div block_size p \<le> bytes - 1"
    by (rule div_le_dividend)
  with assms(1,2) have "1 + (bytes - 1) div block_size p < 2 ^ 64"
    by linarith
  ultimately show ?thesis
    by (simp add: number_of_blocks_def sz_add_eq)
qed

lemma number_of_blocks_ceil:
  assumes "0 < bytes" and "bytes < 2 ^ 64" and "0 < block_size p"
  shows "number_of_blocks p bytes = (bytes + block_size p - 1) div block_size p"
proof -
  from assms(1) have e: "bytes + block_size p - 1 = (bytes - 1) + block_size p"
    by linarith
  have "(bytes + block_size p - 1) div block_size p = ((bytes - 1) + block_size p) div block_size p"
    by (simp only: e)
  also have "\<dots> = (bytes - 1) div block_size p + 1"
    using assms(3) by (intro div_add_self2) simp
  also have "\<dots> = number_of_blocks p bytes"
    using assms by (simp add: number_of_blocks_pos)
  finally show ?thesis
    by (rule sym)
qed

lemma number_of_blocks_covers:
  assumes "0 < bytes" and "bytes < 2 ^ 64" and "0 < block_size p"
  shows "bytes \<le> number_of_blocks p bytes * block_size p"
proof -
  have "bytes - 1 < block_size p + (bytes - 1) div block_size p * block_size p"
    using assms(3) by (rule dividend_less_div_times)
  with assms(1) have "bytes \<le> (1 + (bytes - 1) div block_size p) * block_size p"
    by simp
  with assms show ?thesis
    by (simp add: number_of_blocks_pos)
qed

lemma number_of_blocks_least:
  assumes "0 < bytes" and "bytes < 2 ^ 64" and "0 < block_size p" and "bytes \<le> l * block_size p"
  shows "number_of_blocks p bytes \<le> l"
proof -
  from assms(1,4) have "bytes - 1 < l * block_size p"
    by linarith
  with assms(3) have "(bytes - 1) div block_size p < l"
    by (simp add: div_less_iff_less_mult)
  with assms show ?thesis
    by (simp add: number_of_blocks_pos)
qed

lemma number_of_blocks_zero:
  assumes "2 \<le> block_size p" and "block_size p * block_counter p < 2 ^ 64"
  shows "number_of_blocks p 0 = 1 + (2 ^ 64 - 1) div block_size p"
    and "block_counter p < number_of_blocks p 0"
    and "block_counter p + number_of_blocks p 0 < 2 ^ 64"
proof -
  let ?q = "(2 ^ 64 - 1 :: nat) div block_size p"
  have "?q \<le> (2 ^ 64 - 1) div 2"
    using assms(1) by (intro div_le_mono2) simp_all
  then have q: "?q < 2 ^ 63"
    by simp
  have "sz_sub 0 1 = 2 ^ 64 - 1"
    by (simp add: sz_sub_def)
  with q show n: "number_of_blocks p 0 = 1 + ?q"
    by (simp add: number_of_blocks_def sz_add_eq)
  from assms(2) have "block_size p * block_counter p \<le> 2 ^ 64 - 1"
    by simp
  then have "block_size p * block_counter p div block_size p \<le> ?q"
    by (rule div_le_mono)
  with assms(1) have bc: "block_counter p \<le> ?q"
    by simp
  with n show "block_counter p < number_of_blocks p 0"
    by simp
  from bc q n show "block_counter p + number_of_blocks p 0 < 2 ^ 64"
    by simp
qed

lemma run_free_shorter: "run_free ub j l \<Longrightarrow> n \<le> l \<Longrightarrow> run_free ub j n"
  by (auto simp add: run_free_def)

lemma run_free_first: "run_free ub j n \<Longrightarrow> 0 < n \<Longrightarrow> \<not> block_in_use ub j"
  by (auto simp add: run_free_def)

text \<open>What a returned allocation is, in a pool that satisfies the invariant.\<close>

lemma allocate_returns:
  assumes wf: "pool_wf p" and res: "Pool_allocate sg p bytes = Some (Inr (p', pointer))"
  obtains
    (found) idx where "pointer = mem_pointer p + idx * block_size p" and "pointer \<noteq> 0"
      and "free_block p \<le> idx" and "idx < block_counter p"
      and "idx + number_of_blocks p bytes \<le> block_counter p"
      and "run_free (used_blocks p) idx (number_of_blocks p bytes)"
      and "\<forall>j. free_block p \<le> j \<and> j < idx \<longrightarrow> \<not> run_free (used_blocks p) j (number_of_blocks p bytes)"
      and "allocated p (number_of_blocks p bytes) idx p'"
  | (none) "pointer = 0" and "p' = p"
      and "\<forall>j. free_block p \<le> j \<and> j < block_counter p \<and> j + number_of_blocks p bytes \<le> block_counter p
             \<longrightarrow> \<not> run_free (used_blocks p) j (number_of_blocks p bytes)"
proof -
  from Pool_allocate_spec [OF wf, of sg bytes] res
  have "alloc_post p (number_of_blocks p bytes) (Inr (p', pointer))"
    by simp
  then show thesis
    unfolding alloc_post_def using found none by (simp only: sum.case prod.case) blast
qed

lemma allocate_no_overflow:
  assumes wf: "pool_wf p" and "block_counter p + number_of_blocks p bytes < 2 ^ 64"
  shows "\<exists>p' pointer. Pool_allocate sg p bytes = Some (Inr (p', pointer))"
proof -
  from Pool_allocate_spec [OF wf, of sg bytes] obtain r
    where r: "Pool_allocate sg p bytes = Some r" and post: "alloc_post p (number_of_blocks p bytes) r"
    by blast
  show ?thesis
  proof (cases r)
    case (Inl e)
    with post assms(2) show ?thesis
      by (simp add: alloc_post_def)
  next
    case (Inr u)
    with r show ?thesis
      by (cases u) simp
  qed
qed

lemma allocate_terminates:
  assumes "pool_wf p"
  shows "Pool_allocate sg p bytes \<noteq> None"
  using Pool_allocate_spec [OF assms, of sg bytes] by auto

subsection \<open>The counter\<close>

lemmas run_simps =
  reachable_def config_ok_def Pool_def Pool_allocate_def Pool_deallocate_def get_blocks_def
  get_blocks_for.simps get_blocks_while.simps use_blocks_def use_blocks_for.simps
  free_blocks_def free_blocks_for.simps number_of_blocks_def
  sz_add_def sz_sub_def sz_mul_def kByte_def shift_rem2_def c_rem_def char_promote_def

lemmas bit_simps = zero_bits_def run_free_def block_in_use_def kByte_def upt_rec

text \<open>
  C1.  After every sequence of valid calls on a pool, the free-block counter
  \<open>blocks_free_num\<close> equals the number of zero bits among the first \<open>block_counter\<close>
  bits of the bitmap.
\<close>

theorem C1_counter_is_zero_bits:
  assumes "reachable sg bsize bcount mem calls (p, live)"
  shows "blocks_free_num p = zero_bits p"
proof -
  from assms have "pool_wf p"
    by (rule reachable_pool_wf)
  then show ?thesis
    by (rule pool_wf_bounds)
qed

theorem C1_witness:
  "reachable True 16 8 4096 [Allocate 33, Allocate 16, Deallocate 4096 33]
     (\<lparr>block_size = 16, block_counter = 8, blocks_free_num = 7, free_block = 0,
       mem_pointer = 4096, used_blocks = [16]\<rparr>, [(4144, 16)]) \<and>
   blocks_free_num \<lparr>block_size = 16, block_counter = 8, blocks_free_num = 7, free_block = 0,
       mem_pointer = 4096, used_blocks = [16]\<rparr>
   = zero_bits \<lparr>block_size = 16, block_counter = 8, blocks_free_num = 7, free_block = 0,
       mem_pointer = 4096, used_blocks = [16]\<rparr> \<and>
   zero_bits \<lparr>block_size = 16, block_counter = 8, blocks_free_num = 7, free_block = 0,
       mem_pointer = 4096, used_blocks = [16]\<rparr> = 7"
proof -
  have r: "reachable True 16 8 4096 [Allocate 33, Allocate 16, Deallocate 4096 33]
     (\<lparr>block_size = 16, block_counter = 8, blocks_free_num = 7, free_block = 0,
       mem_pointer = 4096, used_blocks = [16]\<rparr>, [(4144, 16)])"
    by (simp add: run_simps)
  from C1_counter_is_zero_bits [OF r] r show ?thesis
    by simp
qed

text \<open>
  C8.  \<^verbatim>\<open>Pool::deallocate\<close> with the null pointer raises an error for every byte count,
  before it reads or writes the pool; it is never a silent no-op.  (The exception that
  the source throws is \<^verbatim>\<open>std::bad_alloc\<close>.)
\<close>

theorem C8_deallocate_null_raises: "Pool_deallocate p 0 bytes = Inl Bad_Alloc"
  by (simp add: Pool_deallocate_def)

subsection \<open>First fit\<close>

text \<open>
  C2, as amended.  In a state reached by valid calls, a \<^verbatim>\<open>Pool::allocate\<close> of at least
  one byte that returns a pointer returns the start of the lowest-indexed run of
  \<open>ceil (bytes / block_size)\<close> consecutive free blocks: the run fits the pool, all its
  blocks were free, and no run of that length starts at a lower index.
\<close>

theorem C2_first_fit:
  assumes "reachable sg bsize bcount mem calls (p, live)" and "0 < bytes" and "bytes < 2 ^ 64"
    and "Pool_allocate sg p bytes = Some (Inr (p', pointer))" and "pointer \<noteq> 0"
  shows "\<exists>idx. pointer = mem_pointer p + idx * block_size p \<and>
           number_of_blocks p bytes = (bytes + block_size p - 1) div block_size p \<and>
           idx + number_of_blocks p bytes \<le> block_counter p \<and>
           run_free (used_blocks p) idx (number_of_blocks p bytes) \<and>
           (\<forall>j<idx. \<not> run_free (used_blocks p) j (number_of_blocks p bytes))"
proof -
  let ?n = "number_of_blocks p bytes"
  from assms(1) have wf: "pool_wf p"
    by (rule reachable_pool_wf)
  note b = pool_wf_bounds [OF wf]
  from assms(2,3) b(4) have n: "?n = (bytes + block_size p - 1) div block_size p"
    by (rule number_of_blocks_ceil)
  from assms(2,3) b(4) have "?n = 1 + (bytes - 1) div block_size p"
    by (rule number_of_blocks_pos)
  then have pos: "0 < ?n"
    by simp
  from wf assms(4) show ?thesis
  proof (cases rule: allocate_returns)
    case none
    with assms(5) show ?thesis
      by simp
  next
    case (found idx)
    have "\<not> run_free (used_blocks p) j ?n" if "j < idx" for j
    proof (cases "j < free_block p")
      case True
      then have "block_in_use (used_blocks p) j"
        by (rule b(10))
      with pos show ?thesis
        using run_free_first [of "used_blocks p" j ?n] by blast
    next
      case False
      with that found(7) show ?thesis
        by simp
    qed
    with found n show ?thesis
      by blast
  qed
qed

theorem C2_witness:
  "reachable True 16 6 4096
     [Allocate 16, Allocate 16, Allocate 16, Deallocate 4096 16, Deallocate 4112 16]
     (\<lparr>block_size = 16, block_counter = 6, blocks_free_num = 5, free_block = 0,
       mem_pointer = 4096, used_blocks = [32]\<rparr>, [(4128, 16)]) \<and>
   map (block_in_use [32]) [0, 1, 2, 3, 4, 5] = [False, False, True, False, False, False] \<and>
   Pool_allocate True
     \<lparr>block_size = 16, block_counter = 6, blocks_free_num = 5, free_block = 0,
       mem_pointer = 4096, used_blocks = [32]\<rparr> 32
   = Some (Inr (\<lparr>block_size = 16, block_counter = 6, blocks_free_num = 3, free_block = 2,
       mem_pointer = 4096, used_blocks = [224]\<rparr>, 4096)) \<and>
   (\<exists>idx. (4096 :: nat) = 4096 + idx * 16 \<and> idx = 0 \<and> run_free [32] idx 2)"
proof -
  let ?p = "\<lparr>block_size = 16, block_counter = 6, blocks_free_num = 5, free_block = 0,
       mem_pointer = 4096, used_blocks = [32]\<rparr>"
  let ?p' = "\<lparr>block_size = 16, block_counter = 6, blocks_free_num = 3, free_block = 2,
       mem_pointer = 4096, used_blocks = [224]\<rparr>"
  have r: "reachable True 16 6 4096
     [Allocate 16, Allocate 16, Allocate 16, Deallocate 4096 16, Deallocate 4112 16] (?p, [(4128, 16)])"
    by (simp add: run_simps)
  have a: "Pool_allocate True ?p 32 = Some (Inr (?p', 4096))"
    by (simp add: run_simps)
  have n: "number_of_blocks ?p 32 = 2"
    by (simp add: number_of_blocks_def sz_add_def sz_sub_def)
  have bits: "map (block_in_use [32]) [0, 1, 2, 3, 4, 5] = [False, False, True, False, False, False]"
    by (simp add: block_in_use_def kByte_def)
  from C2_first_fit [OF r _ _ a] obtain idx
    where "(4096 :: nat) = 4096 + idx * 16" and "run_free [32] idx (number_of_blocks ?p 32)"
    by auto
  then have "(4096 :: nat) = 4096 + idx * 16 \<and> idx = 0 \<and> run_free [32] idx 2"
    using n by simp
  with r a bits show ?thesis
    by blast
qed

text \<open>
  The claim as stated fails for a request of zero bytes in a pool of one-byte blocks:
  zero blocks are needed, a run of zero free blocks starts at index 0, and the pointer
  returned is that of block 1, the resume hint.
\<close>

theorem C2_counterexample:
  "reachable True 1 2 4096 [Allocate 1]
     (\<lparr>block_size = 1, block_counter = 2, blocks_free_num = 1, free_block = 1,
       mem_pointer = 4096, used_blocks = [128]\<rparr>, [(4096, 1)]) \<and>
   Pool_allocate True
     \<lparr>block_size = 1, block_counter = 2, blocks_free_num = 1, free_block = 1,
       mem_pointer = 4096, used_blocks = [128]\<rparr> 0
   = Some (Inr (\<lparr>block_size = 1, block_counter = 2, blocks_free_num = 1, free_block = 1,
       mem_pointer = 4096, used_blocks = [128]\<rparr>, 4097)) \<and>
   number_of_blocks \<lparr>block_size = 1, block_counter = 2, blocks_free_num = 1, free_block = 1,
       mem_pointer = 4096, used_blocks = [128]\<rparr> 0 = 0 \<and>
   run_free [128] 0 0 \<and> (4097 :: nat) = 4096 + 1 * 1 \<and> (4097 :: nat) \<noteq> 4096 + 0 * 1"
  by (simp add: run_simps run_free_def)

subsection \<open>The hint, the round trip and the double release\<close>

lemma number_of_blocks_fits:
  assumes wf: "pool_wf p" and "bytes < 2 ^ 64" and "number_of_blocks p bytes \<le> block_counter p"
  shows "number_of_blocks p bytes = (bytes + block_size p - 1) div block_size p"
proof (cases "0 < bytes")
  case True
  then show ?thesis
    using assms(2) pool_wf_bounds(4) [OF wf] by (rule number_of_blocks_ceil)
next
  case False
  then have z: "bytes = 0"
    by simp
  note b = pool_wf_bounds [OF wf]
  have "block_size p * block_counter p < 2 ^ 64"
    using b(6) by simp
  then have "\<not> 2 \<le> block_size p"
    using number_of_blocks_zero(2) [of p] assms(3) z by fastforce
  with b(4) have "block_size p = 1"
    by linarith
  with z show ?thesis
    by (simp add: number_of_blocks_def sz_add_def sz_sub_def)
qed

text \<open>
  C3.  In every state reached by valid calls, every block below the resume hint
  \<open>free_block\<close> is occupied, so the hint never exceeds the index of the lowest free
  block.  An allocation that returns a pointer moves the hint to just past the run when
  the run starts at the hint and leaves it unchanged otherwise, and the release of a live
  allocation returns and lowers the hint to the released index when that index is smaller.
\<close>

theorem C3_resume_hint:
  assumes "reachable sg bsize bcount mem calls (p, live)"
  shows "(\<forall>k<free_block p. block_in_use (used_blocks p) k) \<and>
         (\<forall>bytes p' pointer.
            bytes < 2 ^ 64 \<and> Pool_allocate sg p bytes = Some (Inr (p', pointer)) \<and> pointer \<noteq> 0 \<longrightarrow>
            (\<exists>idx. pointer = mem_pointer p + idx * block_size p \<and>
                   free_block p' =
                     (if idx = free_block p then idx + number_of_blocks p bytes else free_block p))) \<and>
         (\<forall>pointer bytes.
            (pointer, bytes) \<in> set live \<longrightarrow>
            (\<exists>p'. Pool_deallocate p pointer bytes = Inr p' \<and>
                  free_block p' =
                    (if sz_sub pointer (mem_pointer p) div block_size p < free_block p
                     then sz_sub pointer (mem_pointer p) div block_size p else free_block p)))"
proof (intro conjI allI impI)
  from assms have wf: "pool_wf p"
    by (rule reachable_pool_wf)
  from assms have inv: "state_inv (p, live)"
    by (rule reachable_state_inv)
  show "k < free_block p \<Longrightarrow> block_in_use (used_blocks p) k" for k
    using wf by (rule pool_wf_bounds)
  show "\<exists>idx. pointer = mem_pointer p + idx * block_size p \<and>
          free_block p' = (if idx = free_block p then idx + number_of_blocks p bytes else free_block p)"
    if "bytes < 2 ^ 64 \<and> Pool_allocate sg p bytes = Some (Inr (p', pointer)) \<and> pointer \<noteq> 0"
    for bytes p' pointer
  proof -
    from that have res: "Pool_allocate sg p bytes = Some (Inr (p', pointer))" and nn: "pointer \<noteq> 0"
      by simp_all
    from wf res show ?thesis
    proof (cases rule: allocate_returns)
      case none
      with nn show ?thesis
        by simp
    next
      case (found idx)
      from found(8) have "free_block p' = (if idx = free_block p then idx + number_of_blocks p bytes else free_block p)"
        by (simp add: allocated_def)
      with found(1) show ?thesis
        by blast
    qed
  qed
  show "\<exists>p'. Pool_deallocate p pointer bytes = Inr p' \<and>
          free_block p' =
            (if sz_sub pointer (mem_pointer p) div block_size p < free_block p
             then sz_sub pointer (mem_pointer p) div block_size p else free_block p)"
    if "(pointer, bytes) \<in> set live" for pointer bytes
  proof -
    from deallocate_state_inv [OF inv that] obtain p'
      where "Pool_deallocate p pointer bytes = Inr p'"
        and "released p (number_of_blocks p bytes) (sz_sub pointer (mem_pointer p) div block_size p) p'"
      by blast
    then show ?thesis
      by (auto simp add: released_def)
  qed
qed

theorem C3_witness:
  "reachable True 16 8 4096 [Allocate 33, Allocate 16]
     (\<lparr>block_size = 16, block_counter = 8, blocks_free_num = 4, free_block = 4,
       mem_pointer = 4096, used_blocks = [240]\<rparr>, [(4144, 16), (4096, 33)]) \<and>
   block_in_use [240] 3 \<and>
   Pool_allocate True
     \<lparr>block_size = 16, block_counter = 8, blocks_free_num = 4, free_block = 4,
       mem_pointer = 4096, used_blocks = [240]\<rparr> 16
   = Some (Inr (\<lparr>block_size = 16, block_counter = 8, blocks_free_num = 3, free_block = 5,
       mem_pointer = 4096, used_blocks = [248]\<rparr>, 4160)) \<and>
   Pool_deallocate
     \<lparr>block_size = 16, block_counter = 8, blocks_free_num = 4, free_block = 4,
       mem_pointer = 4096, used_blocks = [240]\<rparr> 4096 33
   = Inr \<lparr>block_size = 16, block_counter = 8, blocks_free_num = 7, free_block = 0,
       mem_pointer = 4096, used_blocks = [16]\<rparr>"
proof -
  let ?p = "\<lparr>block_size = 16, block_counter = 8, blocks_free_num = 4, free_block = 4,
       mem_pointer = 4096, used_blocks = [240]\<rparr>"
  have r: "reachable True 16 8 4096 [Allocate 33, Allocate 16] (?p, [(4144, 16), (4096, 33)])"
    by (simp add: run_simps)
  have a: "Pool_allocate True ?p 16
      = Some (Inr (\<lparr>block_size = 16, block_counter = 8, blocks_free_num = 3, free_block = 5,
           mem_pointer = 4096, used_blocks = [248]\<rparr>, 4160))"
    by (simp add: run_simps)
  have d: "Pool_deallocate ?p 4096 33
      = Inr \<lparr>block_size = 16, block_counter = 8, blocks_free_num = 7, free_block = 0,
           mem_pointer = 4096, used_blocks = [16]\<rparr>"
    by (simp add: run_simps)
  from C3_resume_hint [OF r] have "block_in_use (used_blocks ?p) 3"
    by simp
  with r a d show ?thesis
    by simp
qed

text \<open>
  C4.  In a state reached by valid calls, when \<^verbatim>\<open>Pool::allocate\<close> returns a pointer for
  \<open>N = ceil (bytes / block_size)\<close> blocks, \<^verbatim>\<open>Pool::deallocate\<close> of that pointer with the
  same byte count returns, restores \<open>blocks_free_num\<close> to its value before the
  allocation, clears exactly the \<open>N\<close> bits that the allocation set, and leaves every
  other bit as it was before the allocation.
\<close>

theorem C4_round_trip:
  assumes "reachable sg bsize bcount mem calls (p, live)" and "bytes < 2 ^ 64"
    and "Pool_allocate sg p bytes = Some (Inr (p1, pointer))" and "pointer \<noteq> 0"
  shows "\<exists>p2 idx.
           Pool_deallocate p1 pointer bytes = Inr p2 \<and>
           pointer = mem_pointer p + idx * block_size p \<and>
           number_of_blocks p bytes = (bytes + block_size p - 1) div block_size p \<and>
           blocks_free_num p2 = blocks_free_num p \<and>
           (\<forall>k. idx \<le> k \<and> k < idx + number_of_blocks p bytes \<longrightarrow>
                \<not> block_in_use (used_blocks p) k \<and> block_in_use (used_blocks p1) k \<and>
                \<not> block_in_use (used_blocks p2) k) \<and>
           (\<forall>k. \<not> (idx \<le> k \<and> k < idx + number_of_blocks p bytes) \<longrightarrow>
                block_in_use (used_blocks p2) k = block_in_use (used_blocks p) k \<and>
                block_in_use (used_blocks p1) k = block_in_use (used_blocks p) k)"
proof -
  let ?n = "number_of_blocks p bytes"
  from assms(1) have wf: "pool_wf p"
    by (rule reachable_pool_wf)
  note b = pool_wf_bounds [OF wf]
  from wf assms(3) show ?thesis
  proof (cases rule: allocate_returns)
    case none
    with assms(4) show ?thesis
      by simp
  next
    case (found idx)
    from found(8) have f: "block_size p1 = block_size p" "block_counter p1 = block_counter p"
      "mem_pointer p1 = mem_pointer p" "length (used_blocks p1) = length (used_blocks p)"
      "blocks_free_num p1 + ?n = blocks_free_num p"
      and bits1: "\<forall>k. block_in_use (used_blocks p1) k \<longleftrightarrow> block_in_use (used_blocks p) k \<or> (idx \<le> k \<and> k < idx + ?n)"
      by (simp_all add: allocated_def)
    from found(6) have free: "\<forall>k. idx \<le> k \<and> k < idx + ?n \<longrightarrow> \<not> block_in_use (used_blocks p) k"
      by (simp add: run_free_iff)
    have idx: "sz_sub pointer (mem_pointer p) div block_size p = idx"
      unfolding found(1) using wf found(4) by (rule entry_index)
    have "\<exists>p2. Pool_deallocate p1 pointer bytes = Inr p2 \<and> released p1 ?n idx p2"
    proof (rule Pool_deallocate_spec)
      show "block_size p1 \<noteq> 0"
        using b(4) f by simp
      show "pointer \<noteq> 0"
        by (rule assms(4))
      show "idx = sz_sub pointer (mem_pointer p1) div block_size p1"
        using idx f by simp
      show "?n = number_of_blocks p1 bytes"
        using f by (simp add: number_of_blocks_def)
      show "idx + ?n < 2 ^ 64"
        using found(5) b(3) by simp
      show "idx + ?n \<le> 8 * length (used_blocks p1)"
        using found(5) b(2) f by simp
    qed
    then obtain p2 where d: "Pool_deallocate p1 pointer bytes = Inr p2" and re: "released p1 ?n idx p2"
      by blast
    from re have bfn2: "blocks_free_num p2 = sz_add (blocks_free_num p1) ?n"
      and bits2: "\<forall>k. block_in_use (used_blocks p2) k \<longleftrightarrow> block_in_use (used_blocks p1) k \<and> \<not> (idx \<le> k \<and> k < idx + ?n)"
      by (simp_all add: released_def)
    have "blocks_free_num p < 2 ^ 64"
      using b(9) zero_bits_le [of p] b(3) by simp
    with f(5) have "sz_add (blocks_free_num p1) ?n = blocks_free_num p"
      by (simp add: sz_add_eq)
    with bfn2 have c: "blocks_free_num p2 = blocks_free_num p"
      by simp
    from found(5) have "?n \<le> block_counter p"
      by simp
    with wf assms(2) have n: "?n = (bytes + block_size p - 1) div block_size p"
      by (rule number_of_blocks_fits)
    have inside: "\<forall>k. idx \<le> k \<and> k < idx + ?n \<longrightarrow>
        \<not> block_in_use (used_blocks p) k \<and> block_in_use (used_blocks p1) k \<and> \<not> block_in_use (used_blocks p2) k"
      using free bits1 bits2 by simp
    have outside: "\<forall>k. \<not> (idx \<le> k \<and> k < idx + ?n) \<longrightarrow>
        block_in_use (used_blocks p2) k = block_in_use (used_blocks p) k \<and>
        block_in_use (used_blocks p1) k = block_in_use (used_blocks p) k"
      using bits1 bits2 by blast
    from d found(1) n c inside outside show ?thesis
      by blast
  qed
qed

theorem C4_witness:
  "reachable True 16 8 4096 [Allocate 16]
     (\<lparr>block_size = 16, block_counter = 8, blocks_free_num = 7, free_block = 1,
       mem_pointer = 4096, used_blocks = [128]\<rparr>, [(4096, 16)]) \<and>
   Pool_allocate True
     \<lparr>block_size = 16, block_counter = 8, blocks_free_num = 7, free_block = 1,
       mem_pointer = 4096, used_blocks = [128]\<rparr> 33
   = Some (Inr (\<lparr>block_size = 16, block_counter = 8, blocks_free_num = 4, free_block = 4,
       mem_pointer = 4096, used_blocks = [240]\<rparr>, 4112)) \<and>
   (\<exists>p2. Pool_deallocate
       \<lparr>block_size = 16, block_counter = 8, blocks_free_num = 4, free_block = 4,
         mem_pointer = 4096, used_blocks = [240]\<rparr> 4112 33 = Inr p2 \<and>
      blocks_free_num p2 = 7)"
proof -
  let ?p = "\<lparr>block_size = 16, block_counter = 8, blocks_free_num = 7, free_block = 1,
       mem_pointer = 4096, used_blocks = [128]\<rparr>"
  let ?p1 = "\<lparr>block_size = 16, block_counter = 8, blocks_free_num = 4, free_block = 4,
       mem_pointer = 4096, used_blocks = [240]\<rparr>"
  have r: "reachable True 16 8 4096 [Allocate 16] (?p, [(4096, 16)])"
    by (simp add: run_simps)
  have a: "Pool_allocate True ?p 33 = Some (Inr (?p1, 4112))"
    by (simp add: run_simps)
  from C4_round_trip [OF r _ a] obtain p2
    where "Pool_deallocate ?p1 4112 33 = Inr p2" and "blocks_free_num p2 = blocks_free_num ?p"
    by auto
  then have "\<exists>p2. Pool_deallocate ?p1 4112 33 = Inr p2 \<and> blocks_free_num p2 = 7"
    by simp
  with r a show ?thesis
    by blast
qed

text \<open>
  C5.  The claim holds of the design and the code breaks it.  \<^verbatim>\<open>Pool::free_blocks\<close>
  tests nothing: releasing a block that is already free returns normally and adds to
  the counter, which then exceeds the number of blocks.  Here, after one allocation and its
  release, a second release of the same pointer returns, with no bit changed and
  \<open>blocks_free_num = 9\<close> in a pool of 8 blocks, all free.  Its sibling
  \<^verbatim>\<open>Pool::use_blocks\<close> does assert that a block it marks is free.
\<close>

theorem C5_double_free_returns:
  "reachable True 16 8 4096 [Allocate 16, Deallocate 4096 16]
     (\<lparr>block_size = 16, block_counter = 8, blocks_free_num = 8, free_block = 0,
       mem_pointer = 4096, used_blocks = [0]\<rparr>, []) \<and>
   Pool_deallocate
     \<lparr>block_size = 16, block_counter = 8, blocks_free_num = 8, free_block = 0,
       mem_pointer = 4096, used_blocks = [0]\<rparr> 4096 16
   = Inr \<lparr>block_size = 16, block_counter = 8, blocks_free_num = 9, free_block = 0,
       mem_pointer = 4096, used_blocks = [0]\<rparr> \<and>
   zero_bits \<lparr>block_size = 16, block_counter = 8, blocks_free_num = 9, free_block = 0,
       mem_pointer = 4096, used_blocks = [0]\<rparr> = 8"
  by (simp add: run_simps zero_bits_def block_in_use_def upt_rec)

text \<open>
  The assertion of \<^verbatim>\<open>Pool::use_blocks\<close> compares the remainder with \<open>1\<close>.  Where
  \<^verbatim>\<open>char\<close> is signed, the remainder is \<open>-1\<close> for the top bit of a byte, so marking
  block 0 (or 8, 16, ...) a second time passes the assertion; where \<^verbatim>\<open>char\<close> is unsigned
  the assertion fails.  In a pool that satisfies the invariant, \<^verbatim>\<open>Pool::allocate\<close>
  marks only blocks that its search found free, so the assertion is not reached there.
\<close>

lemma use_blocks_assert_top_bit:
  "use_blocks True
     \<lparr>block_size = 16, block_counter = 8, blocks_free_num = 7, free_block = 1,
       mem_pointer = 4096, used_blocks = [128]\<rparr> 0 1
   = Inr \<lparr>block_size = 16, block_counter = 8, blocks_free_num = 6, free_block = 1,
       mem_pointer = 4096, used_blocks = [128]\<rparr> \<and>
   use_blocks False
     \<lparr>block_size = 16, block_counter = 8, blocks_free_num = 7, free_block = 1,
       mem_pointer = 4096, used_blocks = [128]\<rparr> 0 1
   = Inl Assertion_Failed"
  by (simp add: run_simps)

subsection \<open>Exhaustion and unowned pointers\<close>

lemma full_pool_no_run:
  assumes wf: "pool_wf p" and "blocks_free_num p = 0" and "0 < n" and "idx < block_counter p"
  shows "\<not> run_free (used_blocks p) idx n"
proof -
  from wf assms(2) have "zero_bits p = 0"
    using pool_wf_bounds(9) [OF wf] by simp
  then have "block_in_use (used_blocks p) idx"
    using assms(4) by (rule zero_bits_none)
  with assms(3) show ?thesis
    using run_free_first [of "used_blocks p" idx n] by blast
qed

lemma chain_all_fail:
  "\<forall>pool\<in>set ps. request_fails sg pool bytes
     \<Longrightarrow> \<exists>ps'. MemPoolList_allocate sg ps bytes = Some (Inl (Bad_Alloc, ps'))"
proof (induction ps)
  case Nil
  then show ?case by simp
next
  case (Cons pool rest)
  then obtain rest' where rest: "MemPoolList_allocate sg rest bytes = Some (Inl (Bad_Alloc, rest'))"
    by auto
  from Cons.prems have f: "request_fails sg pool bytes"
    by simp
  show ?case
  proof (cases "pre_filter pool bytes")
    case False
    then have "\<not> (sz_mul (blocks_free_num pool) (block_size pool) \<ge> bytes \<and> blocks_free_num pool \<noteq> 0)"
      by (simp add: pre_filter_def)
    then have "MemPoolList_allocate sg (pool # rest) bytes = Some (Inl (Bad_Alloc, pool # rest'))"
      by (simp only: MemPoolList_allocate.simps if_False rest option.case sum.case prod.case)
    then show ?thesis
      by blast
  next
    case True
    with f obtain pool' where a: "Pool_allocate sg pool bytes = Some (Inr (pool', 0))"
      by (auto simp add: request_fails_def split: option.splits sum.splits)
    from True have "sz_mul (blocks_free_num pool) (block_size pool) \<ge> bytes \<and> blocks_free_num pool \<noteq> 0"
      by (simp add: pre_filter_def)
    then have "MemPoolList_allocate sg (pool # rest) bytes = Some (Inl (Bad_Alloc, pool' # rest'))"
      by (simp only: MemPoolList_allocate.simps if_True a rest option.case sum.case prod.case) simp
    then show ?thesis
      by blast
  qed
qed

lemma chain_never_null:
  "MemPoolList_allocate sg ps bytes = Some (Inr (ps', pointer)) \<Longrightarrow> pointer \<noteq> 0"
proof (induction ps arbitrary: ps')
  case Nil
  then show ?case by simp
next
  case (Cons pool rest)
  then show ?case
    by (auto split: if_splits option.splits sum.splits prod.splits)
qed

text \<open>
  C6, as amended.  In a state reached by valid calls, a pool with
  \<open>blocks_free_num = 0\<close> never returns a pointer for a request of at least one byte, and
  it returns the empty result, unchanged, when \<open>block_counter + blocks_needed\<close> does not
  overflow \<^verbatim>\<open>size_t\<close>.  A chain in which every pool fails the request raises
  \<^verbatim>\<open>std::bad_alloc\<close>, and no chain returns a null pointer.
\<close>

theorem C6_exhaustion:
  "(reachable sg bsize bcount mem calls (p, live) \<and> blocks_free_num p = 0 \<and> 0 < bytes \<and> bytes < 2 ^ 64 \<longrightarrow>
      (\<forall>p' pointer. Pool_allocate sg p bytes = Some (Inr (p', pointer)) \<longrightarrow> pointer = 0) \<and>
      (block_counter p + number_of_blocks p bytes < 2 ^ 64 \<longrightarrow>
         Pool_allocate sg p bytes = Some (Inr (p, 0)))) \<and>
   ((\<forall>pool\<in>set ps. request_fails sg pool request) \<longrightarrow>
      (\<exists>ps'. MemPoolList_allocate sg ps request = Some (Inl (Bad_Alloc, ps')))) \<and>
   (\<forall>ps' pointer. MemPoolList_allocate sg ps request = Some (Inr (ps', pointer)) \<longrightarrow> pointer \<noteq> 0)"
proof (intro conjI impI allI)
  assume a: "reachable sg bsize bcount mem calls (p, live) \<and> blocks_free_num p = 0 \<and> 0 < bytes \<and> bytes < 2 ^ 64"
  then have wf: "pool_wf p"
    using reachable_pool_wf by blast
  from a wf have pos: "0 < number_of_blocks p bytes"
    using number_of_blocks_pos [of bytes p] pool_wf_bounds(4) [OF wf] by simp
  have null: "pointer = 0 \<and> p' = p" if "Pool_allocate sg p bytes = Some (Inr (p', pointer))" for p' pointer
    using wf that
  proof (cases rule: allocate_returns)
    case none
    then show ?thesis
      by simp
  next
    case (found idx)
    from wf a pos found(4) have "\<not> run_free (used_blocks p) idx (number_of_blocks p bytes)"
      by (intro full_pool_no_run) simp_all
    with found(6) show ?thesis
      by simp
  qed
  show "pointer = 0" if "Pool_allocate sg p bytes = Some (Inr (p', pointer))" for p' pointer
    using null [OF that] by simp
  show "Pool_allocate sg p bytes = Some (Inr (p, 0))"
    if "block_counter p + number_of_blocks p bytes < 2 ^ 64"
  proof -
    from allocate_no_overflow [OF wf that] obtain p' pointer
      where r: "Pool_allocate sg p bytes = Some (Inr (p', pointer))"
      by blast
    with null [OF r] show ?thesis
      by simp
  qed
next
  assume "\<forall>pool\<in>set ps. request_fails sg pool request"
  then show "\<exists>ps'. MemPoolList_allocate sg ps request = Some (Inl (Bad_Alloc, ps'))"
    by (rule chain_all_fail)
next
  show "pointer \<noteq> 0" if "MemPoolList_allocate sg ps request = Some (Inr (ps', pointer))" for ps' pointer
    using that by (rule chain_never_null)
qed

theorem C6_witness:
  "reachable True 1 2 4096 [Allocate 1, Allocate 1]
     (\<lparr>block_size = 1, block_counter = 2, blocks_free_num = 0, free_block = 2,
       mem_pointer = 4096, used_blocks = [192]\<rparr>, [(4097, 1), (4096, 1)]) \<and>
   Pool_allocate True
     \<lparr>block_size = 1, block_counter = 2, blocks_free_num = 0, free_block = 2,
       mem_pointer = 4096, used_blocks = [192]\<rparr> 1
   = Some (Inr (\<lparr>block_size = 1, block_counter = 2, blocks_free_num = 0, free_block = 2,
       mem_pointer = 4096, used_blocks = [192]\<rparr>, 0)) \<and>
   request_fails True
     \<lparr>block_size = 1, block_counter = 2, blocks_free_num = 0, free_block = 2,
       mem_pointer = 4096, used_blocks = [192]\<rparr> 1 \<and>
   (\<exists>ps'. MemPoolList_allocate True
       [\<lparr>block_size = 1, block_counter = 2, blocks_free_num = 0, free_block = 2,
         mem_pointer = 4096, used_blocks = [192]\<rparr>] 1 = Some (Inl (Bad_Alloc, ps')))"
proof -
  let ?p = "\<lparr>block_size = 1, block_counter = 2, blocks_free_num = 0, free_block = 2,
       mem_pointer = 4096, used_blocks = [192]\<rparr>"
  have r: "reachable True 1 2 4096 [Allocate 1, Allocate 1] (?p, [(4097, 1), (4096, 1)])"
    by (simp add: run_simps)
  have n: "block_counter ?p + number_of_blocks ?p 1 < 2 ^ 64"
    by (simp add: number_of_blocks_def sz_add_def sz_sub_def)
  have f: "request_fails True ?p 1"
    by (simp add: request_fails_def pre_filter_def)
  note c = C6_exhaustion [of True 1 2 4096 "[Allocate 1, Allocate 1]" ?p "[(4097, 1), (4096, 1)]" 1 "[?p]" 1]
  from c r n have "Pool_allocate True ?p 1 = Some (Inr (?p, 0))"
    by simp
  moreover from c f have "\<exists>ps'. MemPoolList_allocate True [?p] 1 = Some (Inl (Bad_Alloc, ps'))"
    by simp
  ultimately show ?thesis
    using r f by blast
qed

text \<open>
  The claim as stated fails in two ways.  A full pool of one-byte blocks whose hint is
  below \<open>block_counter\<close> returns a pointer for a request of zero bytes; and for a request
  of \<open>2 ^ 64 - 1\<close> bytes the test \<^verbatim>\<open>i + n <= block_counter\<close> overflows, the search runs
  and reads the bitmap outside its buffer.
\<close>

theorem C6_counterexample:
  "reachable True 1 2 4096 [Allocate 1, Allocate 1, Deallocate 4096 1, Allocate 1]
     (\<lparr>block_size = 1, block_counter = 2, blocks_free_num = 0, free_block = 1,
       mem_pointer = 4096, used_blocks = [192]\<rparr>, [(4096, 1), (4097, 1)]) \<and>
   Pool_allocate True
     \<lparr>block_size = 1, block_counter = 2, blocks_free_num = 0, free_block = 1,
       mem_pointer = 4096, used_blocks = [192]\<rparr> 0
   = Some (Inr (\<lparr>block_size = 1, block_counter = 2, blocks_free_num = 0, free_block = 1,
       mem_pointer = 4096, used_blocks = [192]\<rparr>, 4097)) \<and>
   Pool_allocate True
     \<lparr>block_size = 1, block_counter = 2, blocks_free_num = 0, free_block = 1,
       mem_pointer = 4096, used_blocks = [192]\<rparr> (2 ^ 64 - 1)
   = Some (Inl Undefined_Behaviour)"
  by (simp add: run_simps)

text \<open>
  C9.  When no pool of the chain claims the pointer (\<^verbatim>\<open>Pool::find\<close> is false for each),
  \<^verbatim>\<open>MemPoolList::deallocate\<close> returns normally and leaves the chain as it was.
  \<^verbatim>\<open>Pool::find\<close> is the test of the arena range, and it never claims the null pointer
  in a pool whose arena pointer is not null.
\<close>

theorem C9_unowned_pointer_ignored:
  "((\<forall>p\<in>set ps. \<not> Pool_find p pointer) \<longrightarrow> MemPoolList_deallocate ps pointer bytes = Inr ps) \<and>
   ((\<forall>p\<in>set ps. mem_pointer p \<noteq> 0) \<longrightarrow>
      (\<forall>p\<in>set ps. \<not> Pool_find p 0) \<and> MemPoolList_deallocate ps 0 bytes = Inr ps) \<and>
   (block_size q * block_counter q < 2 ^ 64 \<longrightarrow>
      Pool_find q pointer =
        (mem_pointer q \<le> pointer \<and> pointer < mem_pointer q + block_size q * block_counter q))"
proof -
  have skip: "MemPoolList_deallocate xs x bytes = Inr xs" if "\<forall>p\<in>set xs. \<not> Pool_find p x" for xs x
    using that by (induction xs) simp_all
  have null: "\<not> Pool_find p 0" if "mem_pointer p \<noteq> 0" for p
    using that by (simp add: Pool_find_def)
  have "MemPoolList_deallocate ps pointer bytes = Inr ps" if "\<forall>p\<in>set ps. \<not> Pool_find p pointer"
    using that by (rule skip)
  moreover have "(\<forall>p\<in>set ps. \<not> Pool_find p 0) \<and> MemPoolList_deallocate ps 0 bytes = Inr ps"
    if "\<forall>p\<in>set ps. mem_pointer p \<noteq> 0"
    using that null skip [of ps 0] by blast
  moreover have "Pool_find q pointer =
      (mem_pointer q \<le> pointer \<and> pointer < mem_pointer q + block_size q * block_counter q)"
    if "block_size q * block_counter q < 2 ^ 64"
    using that by (simp add: Pool_find_def sz_mul_eq)
  ultimately show ?thesis
    by blast
qed

theorem C9_witness:
  "\<not> Pool_find \<lparr>block_size = 16, block_counter = 8, blocks_free_num = 7, free_block = 1,
       mem_pointer = 4096, used_blocks = [128]\<rparr> 4224 \<and>
   MemPoolList_deallocate
     [\<lparr>block_size = 16, block_counter = 8, blocks_free_num = 7, free_block = 1,
        mem_pointer = 4096, used_blocks = [128]\<rparr>] 4224 16
   = Inr [\<lparr>block_size = 16, block_counter = 8, blocks_free_num = 7, free_block = 1,
        mem_pointer = 4096, used_blocks = [128]\<rparr>] \<and>
   MemPoolList_deallocate
     [\<lparr>block_size = 16, block_counter = 8, blocks_free_num = 7, free_block = 1,
        mem_pointer = 4096, used_blocks = [128]\<rparr>] 0 16
   = Inr [\<lparr>block_size = 16, block_counter = 8, blocks_free_num = 7, free_block = 1,
        mem_pointer = 4096, used_blocks = [128]\<rparr>]"
proof -
  let ?p = "\<lparr>block_size = 16, block_counter = 8, blocks_free_num = 7, free_block = 1,
       mem_pointer = 4096, used_blocks = [128]\<rparr>"
  have f: "\<not> Pool_find ?p 4224"
    by (simp add: Pool_find_def sz_mul_def)
  note c = C9_unowned_pointer_ignored [of "[?p]" 4224 16 ?p]
  from c f have "MemPoolList_deallocate [?p] 4224 16 = Inr [?p]"
    by simp
  moreover from c have "MemPoolList_deallocate [?p] 0 16 = Inr [?p]"
    by simp
  ultimately show ?thesis
    using f by blast
qed

subsection \<open>The chain\<close>

lemma counter_product:
  assumes wf: "pool_wf p"
  shows "sz_mul (blocks_free_num p) (block_size p) = blocks_free_num p * block_size p"
    and "blocks_free_num p \<le> block_counter p"
proof -
  note b = pool_wf_bounds [OF wf]
  show le: "blocks_free_num p \<le> block_counter p"
    using b(9) zero_bits_le [of p] by simp
  then have "blocks_free_num p * block_size p \<le> block_counter p * block_size p"
    by (rule mult_le_mono1)
  also have "\<dots> = block_size p * block_counter p"
    by (rule mult.commute)
  also have "\<dots> < 2 ^ 63"
    by (rule b(6))
  finally have "blocks_free_num p * block_size p < 2 ^ 64"
    by simp
  then show "sz_mul (blocks_free_num p) (block_size p) = blocks_free_num p * block_size p"
    by (rule sz_mul_eq)
qed

lemma exceeding_pool_fails:
  assumes wf: "pool_wf A" and ex: "exceeds_free_runs A bytes" and "0 < bytes" and "bytes < 2 ^ 64"
    and pf: "pre_filter A bytes"
  shows "Pool_allocate sg A bytes = Some (Inr (A, 0))"
proof -
  let ?n = "number_of_blocks A bytes"
  note b = pool_wf_bounds [OF wf]
  note c = counter_product [OF wf]
  from pf c(1) have "bytes \<le> blocks_free_num A * block_size A"
    by (simp add: pre_filter_def)
  with assms(3,4) b(4) have "?n \<le> blocks_free_num A"
    by (rule number_of_blocks_least)
  with c(2) b(3) have "block_counter A + ?n < 2 ^ 64"
    by simp
  with wf obtain p' pointer where r: "Pool_allocate sg A bytes = Some (Inr (p', pointer))"
    using allocate_no_overflow by blast
  from wf r show ?thesis
  proof (cases rule: allocate_returns)
    case none
    with r show ?thesis
      by simp
  next
    case (found idx)
    from found(5) have "idx \<in> {..block_counter A}" and "?n \<in> {..block_counter A}"
      by simp_all
    with ex found(5) found(6) have "?n * block_size A < bytes"
      unfolding exceeds_free_runs_def by blast
    moreover from assms(3,4) b(4) have "bytes \<le> ?n * block_size A"
      by (rule number_of_blocks_covers)
    ultimately show ?thesis
      by simp
  qed
qed

lemma roomy_pool_allocates:
  assumes wf: "pool_wf B" and room: "has_room B bytes" and "0 < bytes" and "bytes < 2 ^ 64"
  shows "pre_filter B bytes"
    and "\<exists>B' pointer. Pool_allocate sg B bytes = Some (Inr (B', pointer)) \<and> pointer \<noteq> 0 \<and> Pool_find B pointer"
proof -
  let ?n = "number_of_blocks B bytes"
  note b = pool_wf_bounds [OF wf]
  note c = counter_product [OF wf]
  from room obtain j l where jl: "j + l \<le> block_counter B" "run_free (used_blocks B) j l"
    "bytes \<le> l * block_size B"
    unfolding has_room_def by blast
  from assms(3,4) b(4) jl(3) have nl: "?n \<le> l"
    by (rule number_of_blocks_least)
  from assms(3,4) b(4) have "?n = 1 + (bytes - 1) div block_size B"
    by (rule number_of_blocks_pos)
  then have pos: "0 < ?n"
    by simp
  from jl(2) have "\<forall>k. j \<le> k \<and> k < j + l \<longrightarrow> \<not> block_in_use (used_blocks B) k"
    by (simp add: run_free_iff)
  with jl(1) have "l \<le> zero_bits B"
    by (rule zero_bits_run)
  with b(9) have lc: "l \<le> blocks_free_num B"
    by simp
  then have "l * block_size B \<le> blocks_free_num B * block_size B"
    by (rule mult_le_mono1)
  with jl(3) have "bytes \<le> blocks_free_num B * block_size B"
    by linarith
  moreover from lc nl pos have "blocks_free_num B \<noteq> 0"
    by linarith
  ultimately show "pre_filter B bytes"
    using c(1) by (simp add: pre_filter_def)
  from jl(2) nl have run: "run_free (used_blocks B) j ?n"
    by (rule run_free_shorter)
  from jl(1) nl have fits: "j + ?n \<le> block_counter B"
    by linarith
  from run pos have "\<not> block_in_use (used_blocks B) j"
    by (rule run_free_first)
  with b(10) [of j] have above: "free_block B \<le> j"
    by (cases "j < free_block B") simp_all
  from fits b(3) have "block_counter B + ?n < 2 ^ 64"
    by simp
  with wf obtain B' pointer where r: "Pool_allocate sg B bytes = Some (Inr (B', pointer))"
    using allocate_no_overflow by blast
  from wf r show "\<exists>B' pointer. Pool_allocate sg B bytes = Some (Inr (B', pointer)) \<and> pointer \<noteq> 0 \<and> Pool_find B pointer"
  proof (cases rule: allocate_returns)
    case none
    from fits pos have "j < block_counter B"
      by linarith
    with none(3) above fits run show ?thesis
      by blast
  next
    case (found idx)
    have "sz_mul (block_size B) (block_counter B) = block_size B * block_counter B"
      using b(6) by (intro sz_mul_eq) simp
    moreover have "idx * block_size B < block_counter B * block_size B"
      using found(4) b(4) by simp
    then have "idx * block_size B < block_size B * block_counter B"
      by (simp add: mult.commute)
    ultimately have "Pool_find B pointer"
      using found(1) by (simp add: Pool_find_def)
    with r found(2) show ?thesis
      by blast
  qed
qed

lemma chain_fallback:
  assumes "0 < bytes" and "bytes < 2 ^ 64" and "\<forall>A\<in>set As. pool_wf A \<and> exceeds_free_runs A bytes"
    and "pool_wf B" and "has_room B bytes"
  shows "\<exists>B' pointer. MemPoolList_allocate sg (As @ B # rest) bytes = Some (Inr (As @ B' # rest, pointer)) \<and>
           Pool_find B pointer"
  using assms(3)
proof (induction As)
  case Nil
  from assms(4,5,1,2) have "pre_filter B bytes"
    by (rule roomy_pool_allocates)
  then have pf: "sz_mul (blocks_free_num B) (block_size B) \<ge> bytes \<and> blocks_free_num B \<noteq> 0"
    by (simp add: pre_filter_def)
  from roomy_pool_allocates(2) [OF assms(4,5,1,2)] obtain B' pointer
    where r: "Pool_allocate sg B bytes = Some (Inr (B', pointer))" and nn: "pointer \<noteq> 0"
      and f: "Pool_find B pointer"
    by blast
  from pf r nn have "MemPoolList_allocate sg ([] @ B # rest) bytes = Some (Inr ([] @ B' # rest, pointer))"
    by simp
  with f show ?case
    by blast
next
  case (Cons A As)
  then obtain B' pointer
    where rest: "MemPoolList_allocate sg (As @ B # rest) bytes = Some (Inr (As @ B' # rest, pointer))"
      and f: "Pool_find B pointer"
    by auto
  from Cons.prems have wf: "pool_wf A" and ex: "exceeds_free_runs A bytes"
    by simp_all
  have "MemPoolList_allocate sg ((A # As) @ B # rest) bytes = Some (Inr ((A # As) @ B' # rest, pointer))"
  proof (cases "pre_filter A bytes")
    case True
    with wf ex assms(1,2) have a: "Pool_allocate sg A bytes = Some (Inr (A, 0))"
      by (intro exceeding_pool_fails)
    from True have "sz_mul (blocks_free_num A) (block_size A) \<ge> bytes \<and> blocks_free_num A \<noteq> 0"
      by (simp add: pre_filter_def)
    with a rest show ?thesis
      by simp
  next
    case False
    then have "\<not> (sz_mul (blocks_free_num A) (block_size A) \<ge> bytes \<and> blocks_free_num A \<noteq> 0)"
      by (simp add: pre_filter_def)
    with rest show ?thesis
      by (simp only: append_Cons MemPoolList_allocate.simps if_False option.case sum.case prod.case)
  qed
  with f show ?case
    by blast
qed

text \<open>
  C7.  \<^verbatim>\<open>MemPoolList::allocate\<close> walks the chain in order.  When the request exceeds
  every free run of each earlier pool, and a later pool \<open>B\<close> has room for it, every
  earlier pool that passes the pre-filter fails its search and is left as it was, the
  walk goes on, and the call returns a pointer of the arena of \<open>B\<close>, with only \<open>B\<close>
  changed.  The pools are in states reached by valid calls.
\<close>

theorem C7_chain_fallback:
  assumes "As \<noteq> []" and "bytes < 2 ^ 64"
    and "\<forall>A\<in>set As. pool_reachable sg A \<and> exceeds_free_runs A bytes"
    and "pool_reachable sg B" and "has_room B bytes"
  shows "(\<forall>A\<in>set As. pre_filter A bytes \<longrightarrow> Pool_allocate sg A bytes = Some (Inr (A, 0))) \<and>
         (\<exists>B' pointer.
            MemPoolList_allocate sg (As @ B # rest) bytes = Some (Inr (As @ B' # rest, pointer)) \<and>
            Pool_find B pointer)"
proof -
  from assms(3) have wfs: "\<forall>A\<in>set As. pool_wf A \<and> exceeds_free_runs A bytes"
    using pool_reachable_wf by blast
  from assms(4) have wfB: "pool_wf B"
    by (rule pool_reachable_wf)
  from assms(1) obtain A where A: "A \<in> set As"
    by (cases As) auto
  with assms(3) have "exceeds_free_runs A bytes"
    by simp
  moreover have "run_free (used_blocks A) 0 0"
    by (simp add: run_free_def)
  ultimately have "0 * block_size A < bytes"
    unfolding exceeds_free_runs_def by force
  then have pos: "0 < bytes"
    by simp
  have "Pool_allocate sg A' bytes = Some (Inr (A', 0))" if "A' \<in> set As" and "pre_filter A' bytes" for A'
    using wfs that pos assms(2) by (intro exceeding_pool_fails) simp_all
  moreover have "\<exists>B' pointer.
      MemPoolList_allocate sg (As @ B # rest) bytes = Some (Inr (As @ B' # rest, pointer)) \<and>
      Pool_find B pointer"
    using pos assms(2) wfs wfB assms(5) by (rule chain_fallback)
  ultimately show ?thesis
    by blast
qed

theorem C7_witness:
  "pre_filter \<lparr>block_size = 16, block_counter = 4, blocks_free_num = 2, free_block = 0,
        mem_pointer = 4096, used_blocks = [80]\<rparr> 32 \<and>
   Pool_allocate True
     \<lparr>block_size = 16, block_counter = 4, blocks_free_num = 2, free_block = 0,
        mem_pointer = 4096, used_blocks = [80]\<rparr> 32
   = Some (Inr (\<lparr>block_size = 16, block_counter = 4, blocks_free_num = 2, free_block = 0,
        mem_pointer = 4096, used_blocks = [80]\<rparr>, 0)) \<and>
   MemPoolList_allocate True
     [\<lparr>block_size = 16, block_counter = 4, blocks_free_num = 2, free_block = 0,
        mem_pointer = 4096, used_blocks = [80]\<rparr>,
      \<lparr>block_size = 32, block_counter = 2, blocks_free_num = 2, free_block = 0,
        mem_pointer = 8192, used_blocks = [0]\<rparr>] 32
   = Some (Inr ([\<lparr>block_size = 16, block_counter = 4, blocks_free_num = 2, free_block = 0,
        mem_pointer = 4096, used_blocks = [80]\<rparr>,
      \<lparr>block_size = 32, block_counter = 2, blocks_free_num = 1, free_block = 1,
        mem_pointer = 8192, used_blocks = [128]\<rparr>], 8192)) \<and>
   Pool_find \<lparr>block_size = 32, block_counter = 2, blocks_free_num = 2, free_block = 0,
        mem_pointer = 8192, used_blocks = [0]\<rparr> 8192"
proof -
  let ?A = "\<lparr>block_size = 16, block_counter = 4, blocks_free_num = 2, free_block = 0,
        mem_pointer = 4096, used_blocks = [80]\<rparr>"
  let ?B = "\<lparr>block_size = 32, block_counter = 2, blocks_free_num = 2, free_block = 0,
        mem_pointer = 8192, used_blocks = [0]\<rparr>"
  let ?B' = "\<lparr>block_size = 32, block_counter = 2, blocks_free_num = 1, free_block = 1,
        mem_pointer = 8192, used_blocks = [128]\<rparr>"
  have "reachable True 16 4 4096
     [Allocate 16, Allocate 16, Allocate 16, Allocate 16, Deallocate 4096 16, Deallocate 4128 16]
     (?A, [(4144, 16), (4112, 16)])"
    by (simp add: run_simps)
  then have rA: "pool_reachable True ?A"
    unfolding pool_reachable_def by blast
  have "reachable True 32 2 8192 [] (?B, [])"
    by (simp add: run_simps)
  then have rB: "pool_reachable True ?B"
    unfolding pool_reachable_def by blast
  have exA: "exceeds_free_runs ?A 32"
    apply (simp add: exceeds_free_runs_def atMost_upto upt_rec)
    apply (simp add: run_free_def block_in_use_def kByte_def atLeastLessThan_upt upt_rec)
    done
  have "run_free [0] 0 1"
    by (simp add: run_free_def block_in_use_def kByte_def)
  then have roomB: "has_room ?B 32"
    unfolding has_room_def by (intro bexI [of _ 0] bexI [of _ 1]) simp_all
  have pf: "pre_filter ?A 32"
    by (simp add: pre_filter_def sz_mul_def)
  have chain: "MemPoolList_allocate True [?A, ?B] 32 = Some (Inr ([?A, ?B'], 8192))"
    by (simp add: run_simps)
  have find: "Pool_find ?B 8192"
    by (simp add: Pool_find_def sz_mul_def)
  from rA exA have hyp: "\<forall>A\<in>set [?A]. pool_reachable True A \<and> exceeds_free_runs A 32"
    by simp
  from C7_chain_fallback [of "[?A]" 32 True ?B "[]", OF _ _ hyp rB roomB] pf
  have "Pool_allocate True ?A 32 = Some (Inr (?A, 0))"
    by simp
  with pf chain find show ?thesis
    by blast
qed

subsection \<open>Requests of zero bytes\<close>

lemma zero_request_pool:
  assumes "2 \<le> block_size p" and "block_size p * block_counter p < 2 ^ 64"
    and "free_block p \<le> block_counter p"
  shows "Pool_allocate sg p 0 = Some (Inr (p, 0))"
proof -
  let ?n = "number_of_blocks p 0"
  note z = number_of_blocks_zero [OF assms(1,2)]
  from z(3) assms(3) have "sz_add (free_block p) ?n = free_block p + ?n"
    by (intro sz_add_eq) linarith
  with z(2) have "\<not> sz_add (free_block p) ?n \<le> block_counter p"
    by linarith
  then have "get_blocks sg p ?n = Some (Inr (p, block_counter p))"
    unfolding get_blocks_def by (subst get_blocks_for.simps) simp
  with assms(1) show ?thesis
    by (simp add: Pool_allocate_def)
qed

lemma zero_request_chain:
  assumes "\<forall>p\<in>set ps. 2 \<le> block_size p \<and> block_size p * block_counter p < 2 ^ 64 \<and>
             free_block p \<le> block_counter p"
  shows "MemPoolList_allocate sg ps 0 = Some (Inl (Bad_Alloc, ps))"
  using assms
proof (induction ps)
  case Nil
  then show ?case by simp
next
  case (Cons pool rest)
  then have rest: "MemPoolList_allocate sg rest 0 = Some (Inl (Bad_Alloc, rest))"
    by simp
  from Cons.prems have "Pool_allocate sg pool 0 = Some (Inr (pool, 0))"
    by (intro zero_request_pool) simp_all
  with rest show ?case
    by simp
qed

text \<open>
  C10, as amended.  In a pool with \<open>block_size \<ge> 2\<close> whose arena size
  \<open>block_size * block_counter\<close> does not overflow \<^verbatim>\<open>size_t\<close> and whose hint is at most
  \<open>block_counter\<close>, the block count of a request of zero bytes is
  \<open>1 + (2 ^ 64 - 1) div block_size\<close>, larger than \<open>block_counter\<close>:
  \<^verbatim>\<open>Pool::allocate(0)\<close> returns the empty result and leaves the pool as it was, also
  when every block is free, and \<^verbatim>\<open>MemPoolList::allocate(0)\<close> raises \<^verbatim>\<open>std::bad_alloc\<close>
  on a chain of such pools.
\<close>

theorem C10_zero_bytes:
  "(2 \<le> block_size p \<and> block_size p * block_counter p < 2 ^ 64 \<and> free_block p \<le> block_counter p \<longrightarrow>
      number_of_blocks p 0 = 1 + (2 ^ 64 - 1) div block_size p \<and>
      block_counter p < number_of_blocks p 0 \<and>
      Pool_allocate sg p 0 = Some (Inr (p, 0))) \<and>
   ((\<forall>q\<in>set ps. 2 \<le> block_size q \<and> block_size q * block_counter q < 2 ^ 64 \<and>
        free_block q \<le> block_counter q) \<longrightarrow>
      MemPoolList_allocate sg ps 0 = Some (Inl (Bad_Alloc, ps)))"
proof (intro conjI impI)
  assume a: "2 \<le> block_size p \<and> block_size p * block_counter p < 2 ^ 64 \<and> free_block p \<le> block_counter p"
  then show "number_of_blocks p 0 = 1 + (2 ^ 64 - 1) div block_size p"
    using number_of_blocks_zero(1) [of p] by blast
  from a show "block_counter p < number_of_blocks p 0"
    using number_of_blocks_zero(2) [of p] by blast
  from a show "Pool_allocate sg p 0 = Some (Inr (p, 0))"
    using zero_request_pool [of p sg] by blast
next
  assume "\<forall>q\<in>set ps. 2 \<le> block_size q \<and> block_size q * block_counter q < 2 ^ 64 \<and>
        free_block q \<le> block_counter q"
  then show "MemPoolList_allocate sg ps 0 = Some (Inl (Bad_Alloc, ps))"
    by (rule zero_request_chain)
qed

theorem C10_witness:
  "Pool 16 8 4096 = Inr \<lparr>block_size = 16, block_counter = 8, blocks_free_num = 8, free_block = 0,
        mem_pointer = 4096, used_blocks = [0]\<rparr> \<and>
   zero_bits \<lparr>block_size = 16, block_counter = 8, blocks_free_num = 8, free_block = 0,
        mem_pointer = 4096, used_blocks = [0]\<rparr> = 8 \<and>
   number_of_blocks \<lparr>block_size = 16, block_counter = 8, blocks_free_num = 8, free_block = 0,
        mem_pointer = 4096, used_blocks = [0]\<rparr> 0 = 1152921504606846976 \<and>
   Pool_allocate True \<lparr>block_size = 16, block_counter = 8, blocks_free_num = 8, free_block = 0,
        mem_pointer = 4096, used_blocks = [0]\<rparr> 0
   = Some (Inr (\<lparr>block_size = 16, block_counter = 8, blocks_free_num = 8, free_block = 0,
        mem_pointer = 4096, used_blocks = [0]\<rparr>, 0)) \<and>
   MemPoolList_allocate True [\<lparr>block_size = 16, block_counter = 8, blocks_free_num = 8, free_block = 0,
        mem_pointer = 4096, used_blocks = [0]\<rparr>] 0
   = Some (Inl (Bad_Alloc, [\<lparr>block_size = 16, block_counter = 8, blocks_free_num = 8, free_block = 0,
        mem_pointer = 4096, used_blocks = [0]\<rparr>]))"
proof -
  let ?p = "\<lparr>block_size = 16, block_counter = 8, blocks_free_num = 8, free_block = 0,
        mem_pointer = 4096, used_blocks = [0]\<rparr>"
  have c: "Pool 16 8 4096 = Inr ?p"
    by (simp add: Pool_def sz_add_def sz_sub_def kByte_def)
  have z: "zero_bits ?p = 8"
    by (simp add: bit_simps)
  note t = C10_zero_bytes [of ?p True "[?p]"]
  from t have "number_of_blocks ?p 0 = 1152921504606846976"
    and "Pool_allocate True ?p 0 = Some (Inr (?p, 0))"
    and "MemPoolList_allocate True [?p] 0 = Some (Inl (Bad_Alloc, [?p]))"
    by simp_all
  with c z show ?thesis
    by blast
qed

text \<open>
  The claim as stated fails where the product \<open>block_size * block_counter\<close> overflows,
  which the constructor does not exclude.  With \<open>block_size = 2 ^ 61\<close> and 8 blocks the
  block count of a request of zero bytes is \<open>1 + 7 = 8\<close>, not larger than
  \<open>block_counter\<close>: in the fresh pool \<^verbatim>\<open>Pool::allocate(0)\<close> marks all 8 blocks and
  returns the arena pointer, and \<^verbatim>\<open>MemPoolList::allocate(0)\<close> returns it too.
\<close>

theorem C10_counterexample:
  "Pool 2305843009213693952 8 4096
   = Inr \<lparr>block_size = 2305843009213693952, block_counter = 8, blocks_free_num = 8,
          free_block = 0, mem_pointer = 4096, used_blocks = [0]\<rparr> \<and>
   (2 :: nat) \<le> block_size \<lparr>block_size = 2305843009213693952, block_counter = 8, blocks_free_num = 8,
          free_block = 0, mem_pointer = 4096, used_blocks = [0]\<rparr> \<and>
   zero_bits \<lparr>block_size = 2305843009213693952, block_counter = 8, blocks_free_num = 8,
          free_block = 0, mem_pointer = 4096, used_blocks = [0]\<rparr> = 8 \<and>
   number_of_blocks \<lparr>block_size = 2305843009213693952, block_counter = 8, blocks_free_num = 8,
          free_block = 0, mem_pointer = 4096, used_blocks = [0]\<rparr> 0 = 8 \<and>
   Pool_allocate True \<lparr>block_size = 2305843009213693952, block_counter = 8, blocks_free_num = 8,
          free_block = 0, mem_pointer = 4096, used_blocks = [0]\<rparr> 0
   = Some (Inr (\<lparr>block_size = 2305843009213693952, block_counter = 8, blocks_free_num = 0,
          free_block = 8, mem_pointer = 4096, used_blocks = [255]\<rparr>, 4096)) \<and>
   MemPoolList_allocate True [\<lparr>block_size = 2305843009213693952, block_counter = 8, blocks_free_num = 8,
          free_block = 0, mem_pointer = 4096, used_blocks = [0]\<rparr>] 0
   = Some (Inr ([\<lparr>block_size = 2305843009213693952, block_counter = 8, blocks_free_num = 0,
          free_block = 8, mem_pointer = 4096, used_blocks = [255]\<rparr>], 4096))"
  by (simp add: run_simps zero_bits_def block_in_use_def upt_rec)

end
